theory Spec2Isabelle
  imports Main "HOL-Library.Word"
begin

unbundle bit_operations_syntax

section \<open>Data\<close>

text \<open>
  A Go \<^verbatim>\<open>string\<close> is a sequence of bytes, as an Isabelle \<^typ>\<open>string\<close> is; a
  \<^verbatim>\<open>[]byte\<close> is a list of 8-bit words (the nil slice and the empty slice are both
  \<open>[]\<close>); a \<^verbatim>\<open>time.Duration\<close> is a signed number of nanoseconds, on which the
  code does no arithmetic. A point in time is a number of nanoseconds as well.
\<close>

type_synonym key = string
type_synonym bytes = "8 word list"
type_synonym duration = int

section \<open>The local engine (github.com/dgraph-io/ristretto)\<close>

text \<open>
  The engine is a dependency of the repository, not part of its sources. It is modelled
  by its documented surface, as far as \<^verbatim>\<open>cache.go\<close> uses it:
  \<^item> \<^verbatim>\<open>SetWithTTL(key, value, cost, ttl)\<close> is a no-op on a closed cache and for a
    negative ttl; it overwrites the entry of a key that is present; for a new key the
    admission policy decides: it names victims to evict and says whether the new entry
    is worth admitting, and the entry is stored only if it then fits into \<open>MaxCost\<close>.
    The result of type \<^verbatim>\<open>bool\<close> is dropped, as every caller in \<^verbatim>\<open>cache.go\<close>
    drops it.
  \<^item> The policy (TinyLFU counters, sampling, hash conflicts, dropped buffers) is not
    modelled: \<open>policy c n\<close> is the decision the engine takes at the \<open>n\<close>-th call of
    \<^verbatim>\<open>SetWithTTL\<close>, an arbitrary function that the theorems quantify over.
  \<^item> \<open>used\<close> adds up the costs handed to the engine. The engine may charge an entry
    more than the cost handed (it may add a fixed overhead for each entry), which
    only lowers the number of entries that fit into \<open>MaxCost\<close>.
  \<^item> Time: an entry stored with a ttl other than 0 expires at the time of the call
    plus the ttl, and \<^verbatim>\<open>Get\<close> misses an entry once the time is after that; an entry
    stored with ttl 0 does not expire. \<open>expiry\<close> holds the time at which the entry
    held for a key expires (for a key that the store does not hold it is of no
    consequence). The clock belongs to the surroundings: \<open>pause c n\<close> is the time that
    passes after the \<open>n\<close>-th call of \<^verbatim>\<open>SetWithTTL\<close>, until the next one and the reads
    before it; it is an arbitrary function, never negative, that the theorems
    quantify over. \<open>now c\<close> is the time of the state \<open>c\<close>, counted from the start. That
    the engine also removes expired entries in the background is not a step of its
    own: a read does not see them, and the policy may name them as victims.
  \<^item> \<^verbatim>\<open>Wait\<close> blocks until the buffered writes are applied. Writes are applied at
    once in the model, so it is the identity.
  \<^item> \<open>sets\<close> is the trace of the \<^verbatim>\<open>SetWithTTL\<close> calls received: key, value, cost, ttl.
  \<^item> The engine stores values of any type; \<^verbatim>\<open>cache.go\<close> only ever stores byte slices
    in the engine it owns, so the model holds byte slices and the type assertion in
    \<^verbatim>\<open>GetFromInMemoryCache\<close> has no failing branch. Keys are compared as strings:
    collisions of the engine's key hashes fall under the policy's arbitrary choices.
\<close>

record Item =
  Value :: bytes
  Cost :: int
  Expiration :: duration

record Cache =
  store :: "(key \<times> Item) list"
  MaxCost :: int
  isClosed :: bool
  policy :: "nat \<Rightarrow> key list \<times> bool"
  sets :: "(key \<times> bytes \<times> int \<times> duration) list"
  expiry :: "key \<rightharpoonup> int"
  pause :: "nat \<Rightarrow> nat"

primrec clock :: "(nat \<Rightarrow> nat) \<Rightarrow> nat \<Rightarrow> int" where
  "clock p 0 = 0"
| "clock p (Suc n) = clock p n + int (p n)"

definition now :: "Cache \<Rightarrow> int" where
  "now c = clock (pause c) (length (sets c))"

definition expires_at :: "Cache \<Rightarrow> duration \<Rightarrow> int option" where
  "expires_at c ttl = (if ttl = 0 then None else Some (now c + ttl))"

definition used :: "(key \<times> Item) list \<Rightarrow> int" where
  "used st = sum_list (map (\<lambda>kv. Cost (snd kv)) st)"

definition evict :: "key list \<Rightarrow> (key \<times> Item) list \<Rightarrow> (key \<times> Item) list" where
  "evict victims st = filter (\<lambda>kv. fst kv \<notin> set victims) st"

fun overwrite :: "key \<Rightarrow> Item \<Rightarrow> (key \<times> Item) list \<Rightarrow> (key \<times> Item) list" where
  "overwrite k i [] = []"
| "overwrite k i (kv # st) = (if fst kv = k then (k, i) # st else kv # overwrite k i st)"

definition ristretto_SetWithTTL :: "Cache \<Rightarrow> key \<Rightarrow> bytes \<Rightarrow> int \<Rightarrow> duration \<Rightarrow> Cache" where
  "ristretto_SetWithTTL c k v cost ttl =
     (let c1 = c\<lparr>sets := sets c @ [(k, v, cost, ttl)]\<rparr>;
          i = \<lparr>Value = v, Cost = cost, Expiration = ttl\<rparr>;
          e = (expiry c)(k := expires_at c ttl)
      in if isClosed c then c1
         else if ttl < 0 then c1
         else if map_of (store c) k \<noteq> None
         then c1\<lparr>store := overwrite k i (store c), expiry := e\<rparr>
         else (let victims = fst (policy c (length (sets c)));
                   admit = snd (policy c (length (sets c)));
                   kept = evict victims (store c)
               in if admit \<and> used kept + cost \<le> MaxCost c
                  then c1\<lparr>store := kept @ [(k, i)], expiry := e\<rparr>
                  else c1\<lparr>store := kept\<rparr>))"

definition ristretto_Wait :: "Cache \<Rightarrow> Cache" where
  "ristretto_Wait c = c"

definition ristretto_Get :: "Cache \<Rightarrow> key \<Rightarrow> bytes option" where
  "ristretto_Get c k =
     (if isClosed c then None
      else case map_of (store c) k of
             None \<Rightarrow> None
           | Some i \<Rightarrow>
               (case expiry c k of
                  None \<Rightarrow> Some (Value i)
                | Some t \<Rightarrow> if t < now c then None else Some (Value i)))"

definition ristretto_Del :: "Cache \<Rightarrow> key \<Rightarrow> Cache" where
  "ristretto_Del c k = (if isClosed c then c else c\<lparr>store := evict [k] (store c)\<rparr>)"

definition ristretto_Close :: "Cache \<Rightarrow> Cache" where
  "ristretto_Close c = (if isClosed c then c else c\<lparr>store := [], isClosed := True\<rparr>)"

section \<open>The remote store (github.com/redis/go-redis)\<close>

text \<open>
  The client and the server behind it are a dependency as well. The model keeps
  \<^item> \<open>keyspace\<close>, the content of the server;
  \<^item> \<open>sent\<close>, the trace of the requests put on the wire, one entry for each round
    trip: a single command, or a pipeline with all the commands queued in it;
  \<^item> \<open>outage\<close>: whether the \<open>n\<close>-th round trip fails, and with which error (network,
    server, context); an arbitrary function that the theorems quantify over;
  \<^item> \<open>scanner\<close>: the page of keys and the next cursor that the server answers to
    \<^verbatim>\<open>SCAN cursor MATCH pattern COUNT count\<close>. Cursors and pages are the server's
    business, so this is an arbitrary function too.
  \<^item> \<open>gone c n k\<close>: when the \<open>n\<close>-th round trip arrives, the server no longer holds
    the key \<open>k\<close>, whatever was written under it: its time to live is over, the
    server evicted it, or another client deleted it. The store is shared and has a
    clock of its own, so this is an arbitrary function as well.
  A round trip that fails leaves the keyspace as it is. \<^verbatim>\<open>GET\<close> of an absent key
  answers the error \<^verbatim>\<open>redis.Nil\<close>.
\<close>

datatype rerror = RedisNil | Failure string

datatype command =
    SET key bytes duration
  | GET key
  | DEL key
  | SCAN "64 word" string int

datatype request = Cmd command | Pipelined "command list"

record Client =
  keyspace :: "key \<rightharpoonup> bytes"
  sent :: "request list"
  outage :: "nat \<Rightarrow> rerror option"
  scanner :: "(key \<rightharpoonup> bytes) \<Rightarrow> 64 word \<Rightarrow> string \<Rightarrow> int \<Rightarrow> key list \<times> 64 word"
  gone :: "nat \<Rightarrow> key \<Rightarrow> bool"

fun effect :: "command \<Rightarrow> (key \<rightharpoonup> bytes) \<Rightarrow> (key \<rightharpoonup> bytes)" where
  "effect (SET k v ttl) m = m(k \<mapsto> v)"
| "effect (DEL k) m = m(k := None)"
| "effect (GET k) m = m"
| "effect (SCAN cur pat n) m = m"

fun effects :: "request \<Rightarrow> (key \<rightharpoonup> bytes) \<Rightarrow> (key \<rightharpoonup> bytes)" where
  "effects (Cmd c) m = effect c m"
| "effects (Pipelined cs) m = fold effect cs m"

definition roundtrip :: "request \<Rightarrow> Client \<Rightarrow> rerror option \<times> Client" where
  "roundtrip rq c =
     (case outage c (length (sent c)) of
        Some e \<Rightarrow> (Some e, c\<lparr>sent := sent c @ [rq]\<rparr>)
      | None \<Rightarrow> (None, c\<lparr>keyspace := effects rq (keyspace c), sent := sent c @ [rq]\<rparr>))"

definition redis_Set :: "Client \<Rightarrow> key \<Rightarrow> bytes \<Rightarrow> duration \<Rightarrow> rerror option \<times> Client" where
  "redis_Set c k v expiration = roundtrip (Cmd (SET k v expiration)) c"

definition redis_Get :: "Client \<Rightarrow> key \<Rightarrow> (rerror + bytes) \<times> Client" where
  "redis_Get c k =
     (case roundtrip (Cmd (GET k)) c of
        (Some e, c') \<Rightarrow> (Inl e, c')
      | (None, c') \<Rightarrow>
          if gone c (length (sent c)) k
          then (Inl RedisNil, c'\<lparr>keyspace := (keyspace c)(k := None)\<rparr>)
          else (case keyspace c k of None \<Rightarrow> (Inl RedisNil, c') | Some v \<Rightarrow> (Inr v, c')))"

definition redis_Del :: "Client \<Rightarrow> key \<Rightarrow> rerror option \<times> Client" where
  "redis_Del c k = roundtrip (Cmd (DEL k)) c"

definition redis_Scan ::
  "Client \<Rightarrow> 64 word \<Rightarrow> string \<Rightarrow> int \<Rightarrow> (rerror + key list \<times> 64 word) \<times> Client" where
  "redis_Scan c cursor pattern n =
     (case roundtrip (Cmd (SCAN cursor pattern n)) c of
        (Some e, c') \<Rightarrow> (Inl e, c')
      | (None, c') \<Rightarrow> (Inr (scanner c (keyspace c) cursor pattern n), c'))"

text \<open>
  A pipeline is the list of the commands queued so far: creating one and queueing
  into it sends nothing; \<^verbatim>\<open>Exec\<close> is one round trip.
\<close>

definition redis_Pipeline :: "Client \<Rightarrow> command list" where
  "redis_Pipeline c = []"

definition pipe_Del :: "command list \<Rightarrow> key \<Rightarrow> command list" where
  "pipe_Del pipe k = pipe @ [DEL k]"

definition pipe_Exec :: "Client \<Rightarrow> command list \<Rightarrow> rerror option \<times> Client" where
  "pipe_Exec c pipe = roundtrip (Pipelined pipe) c"

section \<open>Digest and encoding (crypto/sha256, encoding/hex)\<close>

text \<open>
  Both come from Go's standard library. SHA-256 follows the generic block function
  of \<^verbatim>\<open>crypto/sha256\<close>: big-endian words, the message schedule \<open>w[16..63]\<close>, 64
  rounds, and the padding of \<^verbatim>\<open>checkSum\<close> (a byte \<open>0x80\<close>, zeros up to 56 modulo 64, the
  length in bits as a 64-bit big-endian number). \<^verbatim>\<open>hex.EncodeToString\<close> writes two
  characters of \<^verbatim>\<open>"0123456789abcdef"\<close> for each byte, the high half first.
\<close>

type_synonym digest =
  "32 word \<times> 32 word \<times> 32 word \<times> 32 word \<times> 32 word \<times> 32 word \<times> 32 word \<times> 32 word"

definition K256 :: "32 word list" where
  "K256 =
     [0x428a2f98, 0x71374491, 0xb5c0fbcf, 0xe9b5dba5, 0x3956c25b, 0x59f111f1, 0x923f82a4, 0xab1c5ed5] @
     [0xd807aa98, 0x12835b01, 0x243185be, 0x550c7dc3, 0x72be5d74, 0x80deb1fe, 0x9bdc06a7, 0xc19bf174] @
     [0xe49b69c1, 0xefbe4786, 0x0fc19dc6, 0x240ca1cc, 0x2de92c6f, 0x4a7484aa, 0x5cb0a9dc, 0x76f988da] @
     [0x983e5152, 0xa831c66d, 0xb00327c8, 0xbf597fc7, 0xc6e00bf3, 0xd5a79147, 0x06ca6351, 0x14292967] @
     [0x27b70a85, 0x2e1b2138, 0x4d2c6dfc, 0x53380d13, 0x650a7354, 0x766a0abb, 0x81c2c92e, 0x92722c85] @
     [0xa2bfe8a1, 0xa81a664b, 0xc24b8b70, 0xc76c51a3, 0xd192e819, 0xd6990624, 0xf40e3585, 0x106aa070] @
     [0x19a4c116, 0x1e376c08, 0x2748774c, 0x34b0bcb5, 0x391c0cb3, 0x4ed8aa4a, 0x5b9cca4f, 0x682e6ff3] @
     [0x748f82ee, 0x78a5636f, 0x84c87814, 0x8cc70208, 0x90befffa, 0xa4506ceb, 0xbef9a3f7, 0xc67178f2]"

definition init256 :: digest where
  "init256 =
    (0x6a09e667, 0xbb67ae85, 0x3c6ef372, 0xa54ff53a, 0x510e527f, 0x9b05688c, 0x1f83d9ab, 0x5be0cd19)"

fun be_words :: "bytes \<Rightarrow> 32 word list" where
  "be_words (b0 # b1 # b2 # b3 # p) =
     (push_bit 24 (ucast b0) OR push_bit 16 (ucast b1) OR push_bit 8 (ucast b2) OR ucast b3)
       # be_words p"
| "be_words p = []"

fun extend :: "nat \<Rightarrow> 32 word list \<Rightarrow> 32 word list" where
  "extend 0 w = w"
| "extend (Suc n) w =
     (let i = length w;
          v1 = w ! (i - 2);
          t1 = word_rotr 17 v1 XOR word_rotr 19 v1 XOR drop_bit 10 v1;
          v2 = w ! (i - 15);
          t2 = word_rotr 7 v2 XOR word_rotr 18 v2 XOR drop_bit 3 v2
      in extend n (w @ [t1 + w ! (i - 7) + t2 + w ! (i - 16)]))"

fun round256 :: "32 word \<times> 32 word \<Rightarrow> digest \<Rightarrow> digest" where
  "round256 (k, w) (a, b, c, d, e, f, g, h) =
     (let t1 = h + (word_rotr 6 e XOR word_rotr 11 e XOR word_rotr 25 e)
                 + ((e AND f) XOR (NOT e AND g)) + k + w;
          t2 = (word_rotr 2 a XOR word_rotr 13 a XOR word_rotr 22 a)
                 + ((a AND b) XOR (a AND c) XOR (b AND c))
      in (t1 + t2, a, b, c, d + t1, e, f, g))"

fun block256 :: "digest \<Rightarrow> bytes \<Rightarrow> digest" where
  "block256 (h0, h1, h2, h3, h4, h5, h6, h7) p =
     (case fold round256 (zip K256 (extend 48 (be_words p))) (h0, h1, h2, h3, h4, h5, h6, h7) of
        (a, b, c, d, e, f, g, h) \<Rightarrow>
          (h0 + a, h1 + b, h2 + c, h3 + d, h4 + e, h5 + f, h6 + g, h7 + h))"

function blocks256 :: "digest \<Rightarrow> bytes \<Rightarrow> digest" where
  "blocks256 dig p =
     (if 64 \<le> length p then blocks256 (block256 dig (take 64 p)) (drop 64 p) else dig)"
  by pat_completeness auto
termination
  by (relation "measure (\<lambda>(dig, p). length p)") auto

definition be_bytes32 :: "32 word \<Rightarrow> bytes" where
  "be_bytes32 w = [ucast (drop_bit 24 w), ucast (drop_bit 16 w), ucast (drop_bit 8 w), ucast w]"

definition be_bytes64 :: "64 word \<Rightarrow> bytes" where
  "be_bytes64 w = map (\<lambda>i. ucast (drop_bit (56 - 8 * i) w)) [0..<8]"

definition padding :: "nat \<Rightarrow> bytes" where
  "padding len =
     (let t = (if len mod 64 < 56 then 56 - len mod 64 else 64 + 56 - len mod 64)
      in 0x80 # replicate (t - 1) 0 @ be_bytes64 (push_bit 3 (of_nat len)))"

fun checkSum :: "digest \<Rightarrow> bytes" where
  "checkSum (h0, h1, h2, h3, h4, h5, h6, h7) =
     be_bytes32 h0 @ be_bytes32 h1 @ be_bytes32 h2 @ be_bytes32 h3 @
     be_bytes32 h4 @ be_bytes32 h5 @ be_bytes32 h6 @ be_bytes32 h7"

definition Sum256 :: "bytes \<Rightarrow> bytes" where
  "Sum256 msg = checkSum (blocks256 init256 (msg @ padding (length msg)))"

text \<open>
  The streaming interface \<^verbatim>\<open>hash.Hash\<close>: a hasher is known by the bytes written to
  it so far; \<^verbatim>\<open>Sum(b)\<close> appends the digest of these bytes to \<open>b\<close>.
\<close>

definition sha256_New :: bytes where
  "sha256_New = []"

definition hash_Write :: "bytes \<Rightarrow> bytes \<Rightarrow> bytes" where
  "hash_Write hasher p = hasher @ p"

definition hash_Sum :: "bytes \<Rightarrow> bytes \<Rightarrow> bytes" where
  "hash_Sum hasher b = b @ Sum256 hasher"

definition hextable :: string where
  "hextable = ''0123456789abcdef''"

definition EncodeToString :: "bytes \<Rightarrow> string" where
  "EncodeToString src =
     concat (map (\<lambda>v. [hextable ! unat (drop_bit 4 v), hextable ! unat (v AND 0x0f)]) src)"

text \<open>The conversion \<^verbatim>\<open>[]byte(data)\<close> of a string.\<close>

definition to_bytes :: "string \<Rightarrow> bytes" where
  "to_bytes data = map of_char data"

text \<open>
  Reading hexadecimal back, to say what the encoding means: the value of a lower-case
  hexadecimal digit, and the bytes written by a string of such digits, two for each
  byte.
\<close>

definition hex_value :: "char \<Rightarrow> nat option" where
  "hex_value c = map_of (zip hextable [0..<16]) c"

fun decode_hex :: "string \<Rightarrow> bytes option" where
  "decode_hex [] = Some []"
| "decode_hex [c] = None"
| "decode_hex (c1 # c2 # cs) =
     (case (hex_value c1, hex_value c2, decode_hex cs) of
        (Some a, Some b, Some bs) \<Rightarrow> Some (of_nat (16 * a + b) # bs)
      | _ \<Rightarrow> None)"

section \<open>The coordinator (cache.go)\<close>

text \<open>
  \<^verbatim>\<open>HybridCache\<close> holds pointers to the two engines; the record holds their states,
  and every method returns the coordinator with the states it leaves behind. Both
  pointers are taken to be set, as they are in a coordinator built by
  \<^verbatim>\<open>NewHybridCache\<close> with a client, or by the tests. The context argument of the
  methods that take one is passed on to the client and plays no other part; a
  cancelled context is one of the ways a round trip fails. \<^verbatim>\<open>NewHybridCache\<close> only
  builds the local engine and copies the configuration: the theorems below start
  from an arbitrary coordinator, which covers the ones it builds.
\<close>

record HybridCache =
  Prefix :: string
  InMemoryCache :: Cache
  Redis :: Client
  ExpiresInMemory :: duration
  ExpiresRedis :: duration

definition SetInMemoryCache :: "HybridCache \<Rightarrow> key \<Rightarrow> bytes \<Rightarrow> HybridCache" where
  "SetInMemoryCache hc k v =
     hc\<lparr>InMemoryCache :=
          ristretto_Wait (ristretto_SetWithTTL (InMemoryCache hc) k v 1 (ExpiresInMemory hc))\<rparr>"

definition SetInRedis :: "HybridCache \<Rightarrow> key \<Rightarrow> bytes \<Rightarrow> duration \<Rightarrow> HybridCache" where
  "SetInRedis rc k v expiration = rc\<lparr>Redis := snd (redis_Set (Redis rc) k v expiration)\<rparr>"

definition Set :: "HybridCache \<Rightarrow> key \<Rightarrow> bytes \<Rightarrow> HybridCache" where
  "Set hc k v = SetInRedis (SetInMemoryCache hc k v) k v (ExpiresRedis hc)"

definition SetWithTTL :: "HybridCache \<Rightarrow> key \<Rightarrow> bytes \<Rightarrow> duration \<Rightarrow> HybridCache" where
  "SetWithTTL hc k v expiration = SetInRedis (SetInMemoryCache hc k v) k v expiration"

definition GetFromInMemoryCache :: "HybridCache \<Rightarrow> key \<Rightarrow> bytes \<times> bool" where
  "GetFromInMemoryCache hc k =
     (case ristretto_Get (InMemoryCache hc) k of
        None \<Rightarrow> ([], False)
      | Some v \<Rightarrow> (v, True))"

definition GetFromRedis :: "HybridCache \<Rightarrow> key \<Rightarrow> (bytes \<times> bool) \<times> HybridCache" where
  "GetFromRedis rc k =
     (case redis_Get (Redis rc) k of
        (Inl err, r) \<Rightarrow> (([], False), rc\<lparr>Redis := r\<rparr>)
      | (Inr data, r) \<Rightarrow> ((data, True), rc\<lparr>Redis := r\<rparr>))"

definition Get :: "HybridCache \<Rightarrow> key \<Rightarrow> (bytes \<times> bool) \<times> HybridCache" where
  "Get hc k =
     (case GetFromInMemoryCache hc k of
        (v, True) \<Rightarrow> ((v, True), hc)
      | (v, False) \<Rightarrow>
          (case GetFromRedis hc k of
             ((v', True), hc') \<Rightarrow> ((v', True), SetInMemoryCache hc' k v')
           | ((v', False), hc') \<Rightarrow> ((v', False), hc')))"

definition DelFromInMemoryCache :: "HybridCache \<Rightarrow> key \<Rightarrow> HybridCache" where
  "DelFromInMemoryCache hc k = hc\<lparr>InMemoryCache := ristretto_Del (InMemoryCache hc) k\<rparr>"

definition DelFromRedis :: "HybridCache \<Rightarrow> key \<Rightarrow> HybridCache" where
  "DelFromRedis hc k = hc\<lparr>Redis := snd (redis_Del (Redis hc) k)\<rparr>"

definition Del :: "HybridCache \<Rightarrow> key \<Rightarrow> HybridCache" where
  "Del hc k = DelFromRedis (DelFromInMemoryCache hc k) k"

text \<open>The result \<open>None\<close> is Go's \<^verbatim>\<open>nil\<close> error.\<close>

definition DelMultipleKeysFromRedis :: "HybridCache \<Rightarrow> key list \<Rightarrow> rerror option \<times> HybridCache" where
  "DelMultipleKeysFromRedis hc keys =
     (if length keys = 0 then (None, hc)
      else (let pipe = foldl pipe_Del (redis_Pipeline (Redis hc)) keys
            in case pipe_Exec (Redis hc) pipe of
                 (Some err, r) \<Rightarrow> (Some err, hc\<lparr>Redis := r\<rparr>)
               | (None, r) \<Rightarrow> (None, hc\<lparr>Redis := r\<rparr>)))"

text \<open>
  The scan loop of \<^verbatim>\<open>DeleteKeysByPatternFromRedis\<close> has no bound: it runs until the
  server answers cursor 0. The result \<open>None\<close> of \<open>scan_loop\<close> says that it never
  returns; \<open>Some (Inl err, r)\<close> is the early \<^verbatim>\<open>return err\<close>, \<open>Some (Inr keys, r)\<close> the
  \<^verbatim>\<open>break\<close>.
\<close>

partial_function (option) scan_loop ::
  "string \<Rightarrow> Client \<Rightarrow> key list \<Rightarrow> 64 word \<Rightarrow> ((rerror + key list) \<times> Client) option" where
  "scan_loop pattern r keys cursor =
     (case redis_Scan r cursor pattern 100 of
        (Inl err, r') \<Rightarrow> Some (Inl err, r')
      | (Inr (scannedKeys, nextCursor), r') \<Rightarrow>
          if nextCursor = 0 then Some (Inr (keys @ scannedKeys), r')
          else scan_loop pattern r' (keys @ scannedKeys) nextCursor)"

definition DeleteKeysByPatternFromRedis ::
  "HybridCache \<Rightarrow> string \<Rightarrow> (rerror option \<times> HybridCache) option" where
  "DeleteKeysByPatternFromRedis hc pattern =
     (case scan_loop pattern (Redis hc) [] 0 of
        None \<Rightarrow> None
      | Some (Inl err, r) \<Rightarrow> Some (Some err, hc\<lparr>Redis := r\<rparr>)
      | Some (Inr keys, r) \<Rightarrow>
          if length keys = 0 then Some (None, hc\<lparr>Redis := r\<rparr>)
          else (let pipe = foldl pipe_Del (redis_Pipeline r) keys
                in case pipe_Exec r pipe of
                     (Some err, r') \<Rightarrow> Some (Some err, hc\<lparr>Redis := r'\<rparr>)
                   | (None, r') \<Rightarrow> Some (None, hc\<lparr>Redis := r'\<rparr>)))"

definition GetCacheKey :: "HybridCache \<Rightarrow> string \<Rightarrow> string" where
  "GetCacheKey hc data =
     (let hasher = sha256_New;
          hasher = hash_Write hasher (to_bytes data)
      in Prefix hc @ '':'' @ EncodeToString (hash_Sum hasher []))"

definition Close :: "HybridCache \<Rightarrow> HybridCache" where
  "Close hc = hc\<lparr>InMemoryCache := ristretto_Close (InMemoryCache hc)\<rparr>"

section \<open>Admission, sequences of calls, and sample coordinators\<close>

text \<open>
  \<open>admits c k cost ttl\<close> says that \<^verbatim>\<open>SetWithTTL(k, _, cost, ttl)\<close> on the cache
  \<open>c\<close> stores its entry: the cache is open, the ttl is not negative, and the key is
  present already or the policy admits it within the budget.
\<close>

definition admits :: "Cache \<Rightarrow> key \<Rightarrow> int \<Rightarrow> duration \<Rightarrow> bool" where
  "admits c k cost ttl =
     (\<not> isClosed c \<and> 0 \<le> ttl \<and>
      (map_of (store c) k \<noteq> None \<or>
       (snd (policy c (length (sets c))) \<and>
        used (evict (fst (policy c (length (sets c)))) (store c)) + cost \<le> MaxCost c)))"

text \<open>
  \<open>fresh c ttl\<close> says that an entry that the next \<^verbatim>\<open>SetWithTTL\<close> on \<open>c\<close> stores with
  this ttl has not expired at the reads that follow that call: the ttl is 0, or the
  time that passes until these reads is no longer than the ttl.
\<close>

definition fresh :: "Cache \<Rightarrow> duration \<Rightarrow> bool" where
  "fresh c ttl = (ttl = 0 \<or> int (pause c (length (sets c))) \<le> ttl)"

text \<open>
  \<open>within_budget c\<close>: every entry held by the cache \<open>c\<close> was handed with the cost
  1, and the number of entries is at most \<open>MaxCost\<close> (no entry at all if that is
  negative).
\<close>

definition unit_costs :: "(key \<times> Item) list \<Rightarrow> bool" where
  "unit_costs st = list_all (\<lambda>kv. Cost (snd kv) = 1) st"

definition within_budget :: "Cache \<Rightarrow> bool" where
  "within_budget c = (unit_costs (store c) \<and> int (length (store c)) \<le> max 0 (MaxCost c))"

text \<open>
  The methods a caller can invoke on a coordinator, and a run of such calls one after
  the other. A run has no result (\<open>None\<close>) when one of its calls does not return.
\<close>

datatype call =
    CallSet key bytes
  | CallSetWithTTL key bytes duration
  | CallGet key
  | CallDel key
  | CallDelMultipleKeysFromRedis "key list"
  | CallDeleteKeysByPatternFromRedis string
  | CallClose

fun step :: "call \<Rightarrow> HybridCache \<Rightarrow> HybridCache option" where
  "step (CallSet k v) hc = Some (Set hc k v)"
| "step (CallSetWithTTL k v expiration) hc = Some (SetWithTTL hc k v expiration)"
| "step (CallGet k) hc = Some (snd (Get hc k))"
| "step (CallDel k) hc = Some (Del hc k)"
| "step (CallDelMultipleKeysFromRedis keys) hc = Some (snd (DelMultipleKeysFromRedis hc keys))"
| "step (CallDeleteKeysByPatternFromRedis pattern) hc =
     map_option snd (DeleteKeysByPatternFromRedis hc pattern)"
| "step CallClose hc = Some (Close hc)"

fun run :: "call list \<Rightarrow> HybridCache \<Rightarrow> HybridCache option" where
  "run [] hc = Some hc"
| "run (c # cs) hc = (case step c hc of None \<Rightarrow> None | Some hc' \<Rightarrow> run cs hc')"

text \<open>
  What the scan loop meets on its way. \<open>page r pattern c\<close> is the answer of the
  server to a scan at cursor \<open>c\<close> with page size 100; \<open>cursor_from r pattern c i\<close>
  is the cursor reached from \<open>c\<close> after \<open>i\<close> pages; \<open>scans\<close> are the first \<open>n\<close>
  scan requests of an enumeration that starts at \<open>c\<close>, and \<open>found\<close> the keys of
  their pages, in order.
\<close>

definition page :: "Client \<Rightarrow> string \<Rightarrow> 64 word \<Rightarrow> key list \<times> 64 word" where
  "page r pattern cursor = scanner r (keyspace r) cursor pattern 100"

primrec cursor_from :: "Client \<Rightarrow> string \<Rightarrow> 64 word \<Rightarrow> nat \<Rightarrow> 64 word" where
  "cursor_from r pattern c 0 = c"
| "cursor_from r pattern c (Suc i) = cursor_from r pattern (snd (page r pattern c)) i"

definition scans :: "Client \<Rightarrow> string \<Rightarrow> 64 word \<Rightarrow> nat \<Rightarrow> request list" where
  "scans r pattern c n = map (\<lambda>i. Cmd (SCAN (cursor_from r pattern c i) pattern 100)) [0..<n]"

definition found :: "Client \<Rightarrow> string \<Rightarrow> 64 word \<Rightarrow> nat \<Rightarrow> key list" where
  "found r pattern c n = concat (map (\<lambda>i. fst (page r pattern (cursor_from r pattern c i))) [0..<n])"

text \<open>
  Sample engines: a local cache with a budget of 100 and a policy that admits, and one
  with a budget of 1 that is full and whose policy rejects newcomers; a remote store
  that answers, and one that is unreachable. In the local samples one millisecond
  passes after each write.
\<close>

definition roomy_cache :: Cache where
  "roomy_cache =
     \<lparr>store = [], MaxCost = 100, isClosed = False, policy = (\<lambda>n. ([], True)), sets = [],
      expiry = Map.empty, pause = (\<lambda>n. 1000000)\<rparr>"

definition full_cache :: Cache where
  "full_cache =
     \<lparr>store = [(''a'', \<lparr>Value = [1], Cost = 1, Expiration = 300000000000\<rparr>)],
      MaxCost = 1, isClosed = False, policy = (\<lambda>n. ([], False)), sets = [],
      expiry = [''a'' \<mapsto> 300000000000], pause = (\<lambda>n. 1000000)\<rparr>"

definition up_redis :: "(key \<rightharpoonup> bytes) \<Rightarrow> Client" where
  "up_redis m =
     \<lparr>keyspace = m, sent = [], outage = (\<lambda>n. None), scanner = (\<lambda>m cur pat n. ([], 0)),
      gone = (\<lambda>n k. False)\<rparr>"

definition down_redis :: Client where
  "down_redis =
     \<lparr>keyspace = Map.empty, sent = [],
      outage = (\<lambda>n. Some (Failure ''dial tcp: connection refused'')),
      scanner = (\<lambda>m cur pat n. ([], 0)), gone = (\<lambda>n k. False)\<rparr>"

text \<open>
  A remote store holding three keys, whose scan answers an empty first page with
  cursor 17, then a page with cursor 5, then the last page with cursor 0.
\<close>

definition paged_redis :: "(nat \<Rightarrow> rerror option) \<Rightarrow> Client" where
  "paged_redis out =
     \<lparr>keyspace = [''p:1'' \<mapsto> [1], ''p:2'' \<mapsto> [2], ''q:1'' \<mapsto> [3]], sent = [], outage = out,
      scanner = (\<lambda>m cur pat n.
        if cur = 0 then ([], 17) else if cur = 17 then ([''p:1''], 5) else ([''p:2''], 0)),
      gone = (\<lambda>n k. False)\<rparr>"

definition coordinator :: "Cache \<Rightarrow> Client \<Rightarrow> HybridCache" where
  "coordinator c r =
     \<lparr>Prefix = ''test'', InMemoryCache = c, Redis = r,
      ExpiresInMemory = 300000000000, ExpiresRedis = 600000000000\<rparr>"

section \<open>Facts about the local engine\<close>

lemma map_of_overwrite:
  "map_of st k \<noteq> None \<Longrightarrow> map_of (overwrite k i st) k = Some i"
  by (induction st) auto

lemma map_of_evict_None:
  "map_of st k = None \<Longrightarrow> map_of (evict vs st) k = None"
  by (induction st) (auto simp: evict_def)

lemma map_of_append_new:
  "map_of st k = None \<Longrightarrow> map_of (st @ [(k, i)]) k = Some i"
  by (simp add: map_add_def)

lemma sets_ristretto_SetWithTTL:
  "sets (ristretto_SetWithTTL c k v cost ttl) = sets c @ [(k, v, cost, ttl)]"
  by (simp add: ristretto_SetWithTTL_def Let_def)

lemma isClosed_ristretto_SetWithTTL:
  "isClosed (ristretto_SetWithTTL c k v cost ttl) = isClosed c"
  by (simp add: ristretto_SetWithTTL_def Let_def)

lemma store_admitted:
  assumes "admits c k cost ttl"
  shows "map_of (store (ristretto_SetWithTTL c k v cost ttl)) k =
     Some \<lparr>Value = v, Cost = cost, Expiration = ttl\<rparr>"
proof (cases "map_of (store c) k = None")
  case True
  then have "map_of (evict (fst (policy c (length (sets c)))) (store c)) k = None"
    by (rule map_of_evict_None)
  with True assms show ?thesis
    by (simp add: admits_def ristretto_SetWithTTL_def Let_def map_add_def)
next
  case False
  with assms show ?thesis
    by (simp add: admits_def ristretto_SetWithTTL_def Let_def map_of_overwrite)
qed

lemma expiry_admitted:
  assumes "admits c k cost ttl"
  shows "expiry (ristretto_SetWithTTL c k v cost ttl) k = expires_at c ttl"
  using assms by (auto simp: admits_def ristretto_SetWithTTL_def Let_def)

lemma now_ristretto_SetWithTTL:
  "now (ristretto_SetWithTTL c k v cost ttl) = now c + int (pause c (length (sets c)))"
  by (simp add: now_def ristretto_SetWithTTL_def Let_def)

text \<open>
  What a read finds right after a write of the same key: the value, if the engine
  admits the entry and the entry is fresh; nothing, if the engine admits the entry and
  it has expired already; and nothing, if the read before the write found nothing
  and the engine does not admit the entry.
\<close>

lemma ristretto_Get_admitted:
  assumes "admits c k cost ttl" and "fresh c ttl"
  shows "ristretto_Get (ristretto_SetWithTTL c k v cost ttl) k = Some v"
proof -
  from assms(1) have "\<not> isClosed (ristretto_SetWithTTL c k v cost ttl)"
    by (simp add: admits_def isClosed_ristretto_SetWithTTL)
  moreover from assms(2)
  have "expires_at c ttl = None \<or>
    (\<exists>t. expires_at c ttl = Some t \<and> \<not> t < now c + int (pause c (length (sets c))))"
    by (auto simp: fresh_def expires_at_def)
  ultimately show ?thesis
    using store_admitted [OF assms(1), of v] expiry_admitted [OF assms(1), of v]
    by (auto simp: ristretto_Get_def now_ristretto_SetWithTTL)
qed

lemma ristretto_Get_expired:
  assumes "admits c k cost ttl" and "\<not> fresh c ttl"
  shows "ristretto_Get (ristretto_SetWithTTL c k v cost ttl) k = None"
proof -
  from assms
  have "\<exists>t. expires_at c ttl = Some t \<and> t < now c + int (pause c (length (sets c)))"
    by (auto simp: fresh_def expires_at_def)
  then show ?thesis
    using store_admitted [OF assms(1), of v] expiry_admitted [OF assms(1), of v]
    by (auto simp: ristretto_Get_def now_ristretto_SetWithTTL)
qed

lemma ristretto_Get_rejected:
  assumes "ristretto_Get c k = None" and "\<not> admits c k cost ttl"
  shows "ristretto_Get (ristretto_SetWithTTL c k v cost ttl) k = None"
proof (cases "isClosed c")
  case True
  then show ?thesis
    by (simp add: ristretto_Get_def isClosed_ristretto_SetWithTTL)
next
  case is_open: False
  show ?thesis
  proof (cases "ttl < 0")
    case True
    with is_open have same: "store (ristretto_SetWithTTL c k v cost ttl) = store c"
      "expiry (ristretto_SetWithTTL c k v cost ttl) = expiry c"
      by (simp_all add: ristretto_SetWithTTL_def Let_def)
    from assms(1) is_open show ?thesis
      by (auto simp: ristretto_Get_def same now_ristretto_SetWithTTL
          isClosed_ristretto_SetWithTTL split: option.splits if_splits)
  next
    case False
    with is_open assms(2) have absent: "map_of (store c) k = None"
      by (auto simp: admits_def)
    then have "map_of (evict (fst (policy c (length (sets c)))) (store c)) k = None"
      by (rule map_of_evict_None)
    with absent False is_open assms(2) show ?thesis
      by (auto simp: admits_def ristretto_Get_def ristretto_SetWithTTL_def Let_def)
  qed
qed

lemma ristretto_Get_after_miss:
  assumes "ristretto_Get c k = None"
  shows "ristretto_Get (ristretto_SetWithTTL c k v cost ttl) k = None \<or>
    ristretto_Get (ristretto_SetWithTTL c k v cost ttl) k = Some v"
  using assms ristretto_Get_admitted [of c k cost ttl v] ristretto_Get_expired [of c k cost ttl v]
    ristretto_Get_rejected [of c k cost ttl v]
  by blast

lemma used_unit_costs: "unit_costs st \<Longrightarrow> used st = int (length st)"
  by (induction st) (auto simp: unit_costs_def used_def)

lemma unit_costs_evict: "unit_costs st \<Longrightarrow> unit_costs (evict vs st)"
  by (induction st) (auto simp: unit_costs_def evict_def)

lemma length_evict: "length (evict vs st) \<le> length st"
  by (simp add: evict_def)

lemma unit_costs_overwrite: "unit_costs st \<Longrightarrow> Cost i = 1 \<Longrightarrow> unit_costs (overwrite k i st)"
  by (induction st) (auto simp: unit_costs_def)

lemma length_overwrite: "length (overwrite k i st) = length st"
  by (induction st) auto

lemma MaxCost_ristretto_SetWithTTL: "MaxCost (ristretto_SetWithTTL c k v cost ttl) = MaxCost c"
  by (simp add: ristretto_SetWithTTL_def Let_def)

lemma within_budget_ristretto_SetWithTTL:
  assumes "within_budget c"
  shows "within_budget (ristretto_SetWithTTL c k v 1 ttl)"
proof -
  let ?kept = "evict (fst (policy c (length (sets c)))) (store c)"
  from assms have unit: "unit_costs (store c)"
    and fits: "int (length (store c)) \<le> max 0 (MaxCost c)"
    by (simp_all add: within_budget_def)
  from unit have kept: "unit_costs ?kept" by (rule unit_costs_evict)
  then have used_kept: "used ?kept = int (length ?kept)" by (rule used_unit_costs)
  have "length ?kept \<le> length (store c)" by (rule length_evict)
  with fits have fits_kept: "int (length ?kept) \<le> max 0 (MaxCost c)" by simp
  have new: "unit_costs (?kept @ [(k, \<lparr>Value = v, Cost = 1, Expiration = ttl\<rparr>)])"
    using kept by (simp add: unit_costs_def)
  have over: "unit_costs (overwrite k \<lparr>Value = v, Cost = 1, Expiration = ttl\<rparr> (store c))"
    using unit by (simp add: unit_costs_overwrite)
  show ?thesis
    using unit fits kept used_kept fits_kept new over
    by (simp add: within_budget_def ristretto_SetWithTTL_def Let_def length_overwrite)
qed

lemma within_budget_ristretto_Del: "within_budget c \<Longrightarrow> within_budget (ristretto_Del c k)"
  using length_evict [of "[k]" "store c"]
  by (simp add: within_budget_def ristretto_Del_def unit_costs_evict)

lemma within_budget_ristretto_Close: "within_budget c \<Longrightarrow> within_budget (ristretto_Close c)"
  by (simp add: within_budget_def ristretto_Close_def unit_costs_def)

lemma sets_ristretto_Del: "sets (ristretto_Del c k) = sets c"
  by (simp add: ristretto_Del_def)

lemma sets_ristretto_Close: "sets (ristretto_Close c) = sets c"
  by (simp add: ristretto_Close_def)

lemma MaxCost_ristretto_Del: "MaxCost (ristretto_Del c k) = MaxCost c"
  by (simp add: ristretto_Del_def)

lemma MaxCost_ristretto_Close: "MaxCost (ristretto_Close c) = MaxCost c"
  by (simp add: ristretto_Close_def)

section \<open>Facts about the digest and its encoding\<close>

lemma hi_nibble: "unat (drop_bit 4 (v :: 8 word)) < 16"
proof -
  have "unat v < 2 ^ 8" using unsigned_less [of v] by simp
  then show ?thesis by (simp add: drop_bit_eq_div unat_div)
qed

lemma lo_nibble: "unat ((v :: 8 word) AND 0x0f) < 16"
proof -
  have "unat (v AND 15) \<le> unat (15 :: 8 word)"
    by (rule word_and_le1 [THEN word_le_nat_alt [THEN iffD1]])
  then show ?thesis by simp
qed

lemma hextable_nth: "n < 16 \<Longrightarrow> hextable ! n \<in> set hextable"
  by (rule nth_mem) (simp add: hextable_def)

lemma length_EncodeToString: "length (EncodeToString src) = 2 * length src"
  by (induction src) (simp_all add: EncodeToString_def)

lemma hex_EncodeToString: "list_all (\<lambda>c. c \<in> set hextable) (EncodeToString src)"
  by (induction src) (simp_all add: EncodeToString_def hextable_nth hi_nibble lo_nibble)

lemma length_checkSum: "length (checkSum dig) = 32"
  by (induct dig rule: checkSum.induct) (simp add: be_bytes32_def)

lemma hex_value_hextable: "n < 16 \<Longrightarrow> hex_value (hextable ! n) = Some n"
  unfolding hex_value_def
  by (subst map_of_zip_nth) (simp_all add: hextable_def)

lemma nibbles: "16 * drop_bit 4 v + (v AND 0x0f) = (v :: 8 word)"
proof -
  have "v AND 0x0f = take_bit 4 v"
    by (simp add: take_bit_eq_mask mask_eq_exp_minus_1)
  moreover have "16 * drop_bit 4 v = push_bit 4 (drop_bit 4 v)"
    by (simp add: push_bit_eq_mult)
  ultimately show ?thesis
    by (simp only: bits_ident)
qed

lemma decode_hex_EncodeToString: "decode_hex (EncodeToString src) = Some src"
proof (induction src)
  case Nil
  show ?case by (simp add: EncodeToString_def)
next
  case (Cons v src)
  have "EncodeToString (v # src) =
      hextable ! unat (drop_bit 4 v) # hextable ! unat (v AND 0x0f) # EncodeToString src"
    by (simp add: EncodeToString_def)
  with Cons show ?case
    by (simp add: hex_value_hextable hi_nibble lo_nibble nibbles)
qed

lemma length_Sum256: "length (Sum256 msg) = 32"
  by (simp add: Sum256_def length_checkSum)

text \<open>The test vector \<open>abc\<close> of the standard.\<close>

lemma Sum256_abc:
  "EncodeToString (Sum256 (to_bytes ''abc'')) =
     ''ba7816bf8f01cfea414140de5dae2223b00361a396177a9cb410ff61f20015ad''"
  by code_simp

section \<open>Facts about the remote store\<close>

lemma sent_roundtrip: "sent (snd (roundtrip rq r)) = sent r @ [rq]"
  by (simp add: roundtrip_def split: option.splits)

lemma outage_roundtrip: "outage (snd (roundtrip rq r)) = outage r"
  by (simp add: roundtrip_def split: option.splits)

lemma scanner_roundtrip: "scanner (snd (roundtrip rq r)) = scanner r"
  by (simp add: roundtrip_def split: option.splits)

lemma roundtrip_ok:
  "outage r (length (sent r)) = None \<Longrightarrow>
   roundtrip rq r = (None, r\<lparr>keyspace := effects rq (keyspace r), sent := sent r @ [rq]\<rparr>)"
  by (simp add: roundtrip_def)

lemma roundtrip_fails:
  "outage r (length (sent r)) = Some e \<Longrightarrow>
   roundtrip rq r = (Some e, r\<lparr>sent := sent r @ [rq]\<rparr>)"
  by (simp add: roundtrip_def)

lemma sent_redis_Get: "sent (snd (redis_Get r k)) = sent r @ [Cmd (GET k)]"
  by (simp add: redis_Get_def roundtrip_def split: option.splits)

lemma redis_Get_after_Set:
  assumes "outage r (length (sent r)) = None"
    and "outage r (Suc (length (sent r))) = None"
    and "\<not> gone r (Suc (length (sent r))) k"
  shows "fst (redis_Get (snd (redis_Set r k v e)) k) = Inr v"
  using assms by (simp add: redis_Get_def redis_Set_def roundtrip_def)

lemma redis_Get_fails:
  assumes "outage r (length (sent r)) = Some e"
  shows "fst (redis_Get r k) = Inl e"
  using assms by (simp add: redis_Get_def roundtrip_def)

lemma sent_redis_Scan: "sent (snd (redis_Scan r cur p n)) = sent r @ [Cmd (SCAN cur p n)]"
  by (simp add: redis_Scan_def roundtrip_def split: option.splits)

lemma keyspace_redis_Scan: "keyspace (snd (redis_Scan r cur p n)) = keyspace r"
  by (simp add: redis_Scan_def roundtrip_def split: option.splits)

text \<open>
  Whenever the scan loop returns, it has only added requests to the trace and has
  left the keyspace alone.
\<close>

lemma scan_loop_extends:
  assumes "scan_loop pattern r keys cursor = Some y"
  shows "(\<exists>w. sent (snd y) = sent r @ w) \<and> keyspace (snd y) = keyspace r"
  using assms
proof (induct rule: scan_loop.raw_induct [rotated 1, consumes 1, case_names step])
  case (step loop pattern r keys cursor y)
  obtain res r1 where scan: "redis_Scan r cursor pattern 100 = (res, r1)"
    by (cases "redis_Scan r cursor pattern 100")
  then have r1: "sent r1 = sent r @ [Cmd (SCAN cursor pattern 100)]" "keyspace r1 = keyspace r"
    using sent_redis_Scan [of r cursor pattern 100] keyspace_redis_Scan [of r cursor pattern 100]
    by simp_all
  show ?case
  proof (cases res)
    case (Inl err)
    with step(2) scan r1 show ?thesis by auto
  next
    case (Inr page)
    obtain scannedKeys nextCursor where page: "page = (scannedKeys, nextCursor)"
      by (cases page)
    show ?thesis
    proof (cases "nextCursor = 0")
      case True
      with step(2) scan r1 Inr page show ?thesis by auto
    next
      case False
      with step(2) scan Inr page
      have "loop pattern r1 (keys @ scannedKeys) nextCursor = Some y" by simp
      from step(1) [OF this] r1 show ?thesis by auto
    qed
  qed
qed

lemma page_sent [simp]: "page (r\<lparr>sent := s\<rparr>) = page r"
  by (simp add: page_def fun_eq_iff)

lemma cursor_from_sent [simp]: "cursor_from (r\<lparr>sent := s\<rparr>) p c i = cursor_from r p c i"
  by (induction i arbitrary: c) simp_all

lemma length_scans: "length (scans r p c n) = n"
  by (simp add: scans_def)

lemma scans_Suc: "scans r p c (Suc n) = Cmd (SCAN c p 100) # scans r p (snd (page r p c)) n"
  by (simp add: scans_def map_upt_Suc del: upt_Suc)

lemma found_Suc: "found r p c (Suc n) = fst (page r p c) @ found r p (snd (page r p c)) n"
  by (simp add: found_def map_upt_Suc del: upt_Suc)

lemma scans_sent [simp]: "scans (r\<lparr>sent := s\<rparr>) p c n = scans r p c n"
  by (simp add: scans_def)

lemma found_sent [simp]: "found (r\<lparr>sent := s\<rparr>) p c n = found r p c n"
  by (simp add: found_def)

lemma redis_Scan_ok:
  "outage r (length (sent r)) = None \<Longrightarrow>
   redis_Scan r c p 100 = (Inr (page r p c), r\<lparr>sent := sent r @ [Cmd (SCAN c p 100)]\<rparr>)"
  by (simp add: redis_Scan_def roundtrip_def page_def)

lemma redis_Scan_fails:
  "outage r (length (sent r)) = Some e \<Longrightarrow>
   redis_Scan r c p 100 = (Inl e, r\<lparr>sent := sent r @ [Cmd (SCAN c p 100)]\<rparr>)"
  by (simp add: redis_Scan_def roundtrip_def)

lemma scan_loop_completes:
  assumes "\<forall>i<n. snd (page r p (cursor_from r p c i)) \<noteq> 0"
    and "snd (page r p (cursor_from r p c n)) = 0"
    and "\<forall>i\<le>n. outage r (length (sent r) + i) = None"
  shows "scan_loop p r keys c =
     Some (Inr (keys @ found r p c (Suc n)), r\<lparr>sent := sent r @ scans r p c (Suc n)\<rparr>)"
  using assms
proof (induction n arbitrary: r keys c)
  case 0
  obtain ks nxt where pg: "page r p c = (ks, nxt)" by (cases "page r p c")
  from 0 have "outage r (length (sent r)) = None" by simp
  with 0 pg show ?case
    by (subst scan_loop.simps) (simp add: redis_Scan_ok found_def scans_def)
next
  case (Suc n)
  let ?r1 = "r\<lparr>sent := sent r @ [Cmd (SCAN c p 100)]\<rparr>"
  let ?c1 = "snd (page r p c)"
  from Suc.prems(3) have up0: "outage r (length (sent r)) = None" by force
  from Suc.prems(1) have nz: "?c1 \<noteq> 0" by force
  have "scan_loop p ?r1 (keys @ fst (page r p c)) ?c1 =
     Some (Inr ((keys @ fst (page r p c)) @ found ?r1 p ?c1 (Suc n)), ?r1\<lparr>sent := sent ?r1 @ scans ?r1 p ?c1 (Suc n)\<rparr>)"
  proof (rule Suc.IH)
    show "\<forall>i<n. snd (page ?r1 p (cursor_from ?r1 p ?c1 i)) \<noteq> 0"
      using Suc.prems(1) by force
    show "snd (page ?r1 p (cursor_from ?r1 p ?c1 n)) = 0"
      using Suc.prems(2) by simp
    show "\<forall>i\<le>n. outage ?r1 (length (sent ?r1) + i) = None"
      using Suc.prems(3) by force
  qed
  moreover obtain ks nxt where pg: "page r p c = (ks, nxt)" by (cases "page r p c")
  ultimately show ?case
    using up0 nz
    by (subst scan_loop.simps)
      (simp add: redis_Scan_ok found_Suc [of r p c "Suc n"] scans_Suc [of r p c "Suc n"])
qed

lemma scan_loop_fails:
  assumes "\<forall>i<n. snd (page r p (cursor_from r p c i)) \<noteq> 0"
    and "\<forall>i<n. outage r (length (sent r) + i) = None"
    and "outage r (length (sent r) + n) = Some e"
  shows "scan_loop p r keys c = Some (Inl e, r\<lparr>sent := sent r @ scans r p c (Suc n)\<rparr>)"
  using assms
proof (induction n arbitrary: r keys c)
  case 0
  then show ?case
    by (subst scan_loop.simps) (simp add: redis_Scan_fails scans_def)
next
  case (Suc n)
  let ?r1 = "r\<lparr>sent := sent r @ [Cmd (SCAN c p 100)]\<rparr>"
  let ?c1 = "snd (page r p c)"
  from Suc.prems(2) have up0: "outage r (length (sent r)) = None" by force
  from Suc.prems(1) have nz: "?c1 \<noteq> 0" by force
  have "scan_loop p ?r1 (keys @ fst (page r p c)) ?c1 =
     Some (Inl e, ?r1\<lparr>sent := sent ?r1 @ scans ?r1 p ?c1 (Suc n)\<rparr>)"
  proof (rule Suc.IH)
    show "\<forall>i<n. snd (page ?r1 p (cursor_from ?r1 p ?c1 i)) \<noteq> 0"
      using Suc.prems(1) by force
    show "\<forall>i<n. outage ?r1 (length (sent ?r1) + i) = None"
      using Suc.prems(2) by force
    show "outage ?r1 (length (sent ?r1) + n) = Some e"
      using Suc.prems(3) by simp
  qed
  moreover obtain ks nxt where pg: "page r p c = (ks, nxt)" by (cases "page r p c")
  ultimately show ?case
    using up0 nz
    by (subst scan_loop.simps) (simp add: redis_Scan_ok scans_Suc [of r p c "Suc n"])
qed

text \<open>
  If the server never answers cursor 0 and no scan fails, the loop does not return.
\<close>

lemma scan_loop_never_returns:
  assumes "\<forall>i. snd (page r p (cursor_from r p c i)) \<noteq> 0"
    and "\<forall>i. outage r (length (sent r) + i) = None"
  shows "scan_loop p r keys c = None"
proof (rule ccontr)
  assume "scan_loop p r keys c \<noteq> None"
  then obtain y where "scan_loop p r keys c = Some y" by auto
  then have "\<not> ((\<forall>i. snd (page r p (cursor_from r p c i)) \<noteq> 0) \<and>
      (\<forall>i. outage r (length (sent r) + i) = None))"
  proof (induct rule: scan_loop.raw_induct [rotated 1, consumes 1, case_names step])
    case (step loop p r keys c y)
    let ?r1 = "r\<lparr>sent := sent r @ [Cmd (SCAN c p 100)]\<rparr>"
    let ?c1 = "snd (page r p c)"
    show ?case
    proof
      assume forever: "(\<forall>i. snd (page r p (cursor_from r p c i)) \<noteq> 0) \<and>
        (\<forall>i. outage r (length (sent r) + i) = None)"
      then have nz: "?c1 \<noteq> 0" and up0: "outage r (length (sent r)) = None"
        using spec [of "\<lambda>i. snd (page r p (cursor_from r p c i)) \<noteq> 0" 0]
          spec [of "\<lambda>i. outage r (length (sent r) + i) = None" 0]
        by simp_all
      obtain ks nxt where pg: "page r p c = (ks, nxt)" by (cases "page r p c")
      with step(2) nz up0 have "loop p ?r1 (keys @ ks) ?c1 = Some y"
        by (simp add: redis_Scan_ok)
      from step(1) [OF this]
      have "\<not> ((\<forall>i. snd (page ?r1 p (cursor_from ?r1 p ?c1 i)) \<noteq> 0) \<and>
        (\<forall>i. outage ?r1 (length (sent ?r1) + i) = None))" .
      moreover have "snd (page ?r1 p (cursor_from ?r1 p ?c1 i)) \<noteq> 0" for i
        using forever spec [of "\<lambda>i. snd (page r p (cursor_from r p c i)) \<noteq> 0" "Suc i"]
        by simp
      moreover have "outage ?r1 (length (sent ?r1) + i) = None" for i
        using forever spec [of "\<lambda>i. outage r (length (sent r) + i) = None" "Suc i"]
        by simp
      ultimately show False by blast
    qed
  qed
  with assms show False by blast
qed

lemma DeleteKeysByPatternFromRedis_never_returns:
  assumes "\<forall>i. snd (page (Redis hc) p (cursor_from (Redis hc) p 0 i)) \<noteq> 0"
    and "\<forall>i. outage (Redis hc) (length (sent (Redis hc)) + i) = None"
  shows "DeleteKeysByPatternFromRedis hc p = None"
  using scan_loop_never_returns [OF assms, of "[]"]
  by (simp add: DeleteKeysByPatternFromRedis_def)

lemma foldl_pipe_Del: "foldl pipe_Del pipe keys = pipe @ map DEL keys"
  by (induction keys arbitrary: pipe) (simp_all add: pipe_Del_def)

section \<open>Facts about the coordinator's writes\<close>

lemma InMemoryCache_SetInMemoryCache:
  "InMemoryCache (SetInMemoryCache hc k v) =
     ristretto_SetWithTTL (InMemoryCache hc) k v 1 (ExpiresInMemory hc)"
  by (simp add: SetInMemoryCache_def ristretto_Wait_def)

lemma Redis_SetInMemoryCache: "Redis (SetInMemoryCache hc k v) = Redis hc"
  by (simp add: SetInMemoryCache_def)

lemma InMemoryCache_SetInRedis: "InMemoryCache (SetInRedis hc k v e) = InMemoryCache hc"
  by (simp add: SetInRedis_def)

lemma Redis_SetInRedis: "Redis (SetInRedis hc k v e) = snd (redis_Set (Redis hc) k v e)"
  by (simp add: SetInRedis_def)

lemma InMemoryCache_Set:
  "InMemoryCache (Set hc k v) =
     ristretto_SetWithTTL (InMemoryCache hc) k v 1 (ExpiresInMemory hc)"
  by (simp add: Set_def InMemoryCache_SetInRedis InMemoryCache_SetInMemoryCache)

lemma Redis_Set: "Redis (Set hc k v) = snd (redis_Set (Redis hc) k v (ExpiresRedis hc))"
  by (simp add: Set_def Redis_SetInRedis Redis_SetInMemoryCache SetInMemoryCache_def)

lemma InMemoryCache_SetWithTTL:
  "InMemoryCache (SetWithTTL hc k v e) =
     ristretto_SetWithTTL (InMemoryCache hc) k v 1 (ExpiresInMemory hc)"
  by (simp add: SetWithTTL_def InMemoryCache_SetInRedis InMemoryCache_SetInMemoryCache)

lemma Redis_SetWithTTL: "Redis (SetWithTTL hc k v e) = snd (redis_Set (Redis hc) k v e)"
  by (simp add: SetWithTTL_def Redis_SetInRedis Redis_SetInMemoryCache)

lemma Get_local_hit:
  "ristretto_Get (InMemoryCache hc) k = Some v \<Longrightarrow> Get hc k = ((v, True), hc)"
  by (simp add: Get_def GetFromInMemoryCache_def)

lemma Get_local_miss:
  "ristretto_Get (InMemoryCache hc) k = None \<Longrightarrow>
   Get hc k =
     (case fst (redis_Get (Redis hc) k) of
        Inl err \<Rightarrow> (([], False), hc\<lparr>Redis := snd (redis_Get (Redis hc) k)\<rparr>)
      | Inr data \<Rightarrow>
          ((data, True), SetInMemoryCache (hc\<lparr>Redis := snd (redis_Get (Redis hc) k)\<rparr>) k data))"
  by (simp add: Get_def GetFromInMemoryCache_def GetFromRedis_def
      split: prod.splits sum.splits)

lemma GetFromInMemoryCache_hit:
  "GetFromInMemoryCache hc k = (v, True) \<longleftrightarrow> ristretto_Get (InMemoryCache hc) k = Some v"
  by (auto simp: GetFromInMemoryCache_def split: option.splits)

lemma GetFromInMemoryCache_miss:
  "\<not> snd (GetFromInMemoryCache hc k) \<longleftrightarrow> ristretto_Get (InMemoryCache hc) k = None"
  by (auto simp: GetFromInMemoryCache_def split: option.splits)

lemma GetFromRedis_hit:
  "fst (GetFromRedis hc k) = (v, True) \<longleftrightarrow> fst (redis_Get (Redis hc) k) = Inr v"
  by (auto simp: GetFromRedis_def split: prod.splits sum.splits)

lemma GetFromRedis_miss:
  "fst (redis_Get (Redis hc) k) = Inl e \<Longrightarrow> fst (GetFromRedis hc k) = ([], False)"
  by (auto simp: GetFromRedis_def split: prod.splits sum.splits)

lemma InMemoryCache_Del: "InMemoryCache (Del hc k) = ristretto_Del (InMemoryCache hc) k"
  by (simp add: Del_def DelFromRedis_def DelFromInMemoryCache_def)

lemma Redis_Del: "Redis (Del hc k) = snd (redis_Del (Redis hc) k)"
  by (simp add: Del_def DelFromRedis_def DelFromInMemoryCache_def)

lemma InMemoryCache_Close: "InMemoryCache (Close hc) = ristretto_Close (InMemoryCache hc)"
  by (simp add: Close_def)

lemma Redis_Close: "Redis (Close hc) = Redis hc"
  by (simp add: Close_def)

lemma InMemoryCache_DelMultipleKeysFromRedis:
  "InMemoryCache (snd (DelMultipleKeysFromRedis hc keys)) = InMemoryCache hc"
  by (simp add: DelMultipleKeysFromRedis_def Let_def split: prod.splits option.splits)

lemma sent_DelMultipleKeysFromRedis:
  "\<exists>w. sent (Redis (snd (DelMultipleKeysFromRedis hc keys))) = sent (Redis hc) @ w"
  by (auto simp: DelMultipleKeysFromRedis_def Let_def pipe_Exec_def roundtrip_def
      split: prod.splits option.splits)

lemma DeleteKeysByPatternFromRedis_local:
  assumes "DeleteKeysByPatternFromRedis hc pattern = Some y"
  shows "InMemoryCache (snd y) = InMemoryCache hc"
  using assms
  by (auto simp: DeleteKeysByPatternFromRedis_def Let_def
      split: option.splits prod.splits sum.splits if_splits)

lemma DeleteKeysByPatternFromRedis_sent:
  assumes "DeleteKeysByPatternFromRedis hc pattern = Some y"
  shows "\<exists>w. sent (Redis (snd y)) = sent (Redis hc) @ w"
proof (cases "scan_loop pattern (Redis hc) [] 0")
  case None
  with assms show ?thesis by (simp add: DeleteKeysByPatternFromRedis_def)
next
  case (Some z)
  obtain res r where z: "z = (res, r)" by (cases z)
  from scan_loop_extends [OF Some] z obtain w where w: "sent r = sent (Redis hc) @ w"
    by auto
  have "sent r' = sent (Redis hc) @ w @ [Pipelined pipe]"
    if "pipe_Exec r pipe = (e, r')" for pipe e r'
    using that sent_roundtrip [of "Pipelined pipe" r] by (simp add: pipe_Exec_def w)
  with assms Some z w show ?thesis
    by (auto simp: DeleteKeysByPatternFromRedis_def Let_def
        split: prod.splits sum.splits if_splits option.splits)
qed

text \<open>What one call does to the local engine, and to the configured local ttl.\<close>

lemma step_local:
  assumes "step c hc = Some hc'"
  shows "InMemoryCache hc' = InMemoryCache hc \<or>
    (\<exists>k v. InMemoryCache hc' =
       ristretto_SetWithTTL (InMemoryCache hc) k v 1 (ExpiresInMemory hc)) \<or>
    (\<exists>k. InMemoryCache hc' = ristretto_Del (InMemoryCache hc) k) \<or>
    InMemoryCache hc' = ristretto_Close (InMemoryCache hc)"
proof (cases c)
  case (CallSet k v)
  with assms have "InMemoryCache hc' =
      ristretto_SetWithTTL (InMemoryCache hc) k v 1 (ExpiresInMemory hc)"
    by (auto simp: InMemoryCache_Set)
  then show ?thesis by blast
next
  case (CallSetWithTTL k v e)
  with assms have "InMemoryCache hc' =
      ristretto_SetWithTTL (InMemoryCache hc) k v 1 (ExpiresInMemory hc)"
    by (auto simp: InMemoryCache_SetWithTTL)
  then show ?thesis by blast
next
  case (CallGet k)
  show ?thesis
  proof (cases "ristretto_Get (InMemoryCache hc) k")
    case None
    with assms CallGet
    have "InMemoryCache hc' = InMemoryCache hc \<or>
      (\<exists>v. InMemoryCache hc' =
         ristretto_SetWithTTL (InMemoryCache hc) k v 1 (ExpiresInMemory hc))"
      by (auto simp: Get_local_miss InMemoryCache_SetInMemoryCache split: sum.splits)
    then show ?thesis by blast
  next
    case (Some v)
    with assms CallGet show ?thesis by (auto simp: Get_local_hit)
  qed
next
  case (CallDel k)
  with assms have "InMemoryCache hc' = ristretto_Del (InMemoryCache hc) k"
    by (auto simp: InMemoryCache_Del)
  then show ?thesis by blast
next
  case (CallDelMultipleKeysFromRedis keys)
  with assms have "InMemoryCache hc' = InMemoryCache hc"
    by (auto simp: InMemoryCache_DelMultipleKeysFromRedis)
  then show ?thesis by blast
next
  case (CallDeleteKeysByPatternFromRedis pattern)
  with assms obtain y where "DeleteKeysByPatternFromRedis hc pattern = Some y"
    and "hc' = snd y"
    by auto
  then have "InMemoryCache hc' = InMemoryCache hc"
    by (simp add: DeleteKeysByPatternFromRedis_local)
  then show ?thesis by blast
next
  case CallClose
  with assms have "InMemoryCache hc' = ristretto_Close (InMemoryCache hc)"
    by (auto simp: InMemoryCache_Close)
  then show ?thesis by blast
qed

lemma step_local_costs:
  assumes "step c hc = Some hc'"
  shows "(\<exists>new. sets (InMemoryCache hc') = sets (InMemoryCache hc) @ new \<and>
            list_all (\<lambda>(k, v, cost, ttl). cost = 1) new) \<and>
         MaxCost (InMemoryCache hc') = MaxCost (InMemoryCache hc) \<and>
         (within_budget (InMemoryCache hc) \<longrightarrow> within_budget (InMemoryCache hc'))"
  using step_local [OF assms]
  by (auto simp: sets_ristretto_SetWithTTL sets_ristretto_Del sets_ristretto_Close
      MaxCost_ristretto_SetWithTTL MaxCost_ristretto_Del MaxCost_ristretto_Close
      within_budget_ristretto_SetWithTTL within_budget_ristretto_Del
      within_budget_ristretto_Close)

lemma run_local_costs:
  assumes "run cs hc = Some hc'"
  shows "(\<exists>new. sets (InMemoryCache hc') = sets (InMemoryCache hc) @ new \<and>
            list_all (\<lambda>(k, v, cost, ttl). cost = 1) new) \<and>
         MaxCost (InMemoryCache hc') = MaxCost (InMemoryCache hc) \<and>
         (within_budget (InMemoryCache hc) \<longrightarrow> within_budget (InMemoryCache hc'))"
  using assms
proof (induction cs arbitrary: hc)
  case Nil
  then show ?case by simp
next
  case (Cons c cs)
  then obtain hc1 where first: "step c hc = Some hc1" and rest: "run cs hc1 = Some hc'"
    by (auto split: option.splits)
  from step_local_costs [OF first] obtain new1 where
    one: "sets (InMemoryCache hc1) = sets (InMemoryCache hc) @ new1"
      "list_all (\<lambda>(k, v, cost, ttl). cost = 1) new1"
      "MaxCost (InMemoryCache hc1) = MaxCost (InMemoryCache hc)"
      "within_budget (InMemoryCache hc) \<longrightarrow> within_budget (InMemoryCache hc1)"
    by blast
  from Cons.IH [OF rest] obtain new2 where
    two: "sets (InMemoryCache hc') = sets (InMemoryCache hc1) @ new2"
      "list_all (\<lambda>(k, v, cost, ttl). cost = 1) new2"
      "MaxCost (InMemoryCache hc') = MaxCost (InMemoryCache hc1)"
      "within_budget (InMemoryCache hc1) \<longrightarrow> within_budget (InMemoryCache hc')"
    by blast
  from one two
  have "sets (InMemoryCache hc') = sets (InMemoryCache hc) @ (new1 @ new2) \<and>
      list_all (\<lambda>(k, v, cost, ttl). cost = 1) (new1 @ new2)"
    by simp
  then have "\<exists>new. sets (InMemoryCache hc') = sets (InMemoryCache hc) @ new \<and>
      list_all (\<lambda>(k, v, cost, ttl). cost = 1) new" ..
  with one(3,4) two(3,4) show ?case by simp
qed

section \<open>Round trip of a value\<close>

text \<open>
  Claim C1, as the code has it. \<^verbatim>\<open>Set(k, v)\<close> followed at once by \<^verbatim>\<open>Get(k)\<close>
  returns \<open>(v, true)\<close>, the bytes unchanged, when the local engine admits the entry
  and the entry has not expired at the read (the local ttl is 0, or no more time than
  the local ttl has passed since the write). It also does when the local lookup
  missed before the write, both the remote \<^verbatim>\<open>SET\<close> of \<^verbatim>\<open>Set\<close> and the remote \<^verbatim>\<open>GET\<close>
  of \<^verbatim>\<open>Get\<close> succeed, and the remote store still holds the key when the \<^verbatim>\<open>GET\<close>
  arrives. When the local lookup missed before the write, the local engine does not
  admit the new entry or the entry has expired at the read, and the remote \<^verbatim>\<open>GET\<close>
  fails, \<^verbatim>\<open>Get\<close> returns \<open>(nil, false)\<close>: neither \<^verbatim>\<open>Set\<close> nor \<^verbatim>\<open>Get\<close> reports what
  the engines answered.
\<close>

theorem Set_then_Get:
  "(admits (InMemoryCache hc) k 1 (ExpiresInMemory hc) \<and>
    fresh (InMemoryCache hc) (ExpiresInMemory hc) \<longrightarrow>
      fst (Get (Set hc k v) k) = (v, True)) \<and>
   (\<not> snd (GetFromInMemoryCache hc k) \<and>
    outage (Redis hc) (length (sent (Redis hc))) = None \<and>
    outage (Redis hc) (Suc (length (sent (Redis hc)))) = None \<and>
    \<not> gone (Redis hc) (Suc (length (sent (Redis hc)))) k \<longrightarrow>
      fst (Get (Set hc k v) k) = (v, True)) \<and>
   (\<not> snd (GetFromInMemoryCache hc k) \<and>
    \<not> (admits (InMemoryCache hc) k 1 (ExpiresInMemory hc) \<and>
       fresh (InMemoryCache hc) (ExpiresInMemory hc)) \<and>
    outage (Redis hc) (Suc (length (sent (Redis hc)))) = Some e \<longrightarrow>
      fst (Get (Set hc k v) k) = ([], False))"
proof -
  let ?c = "InMemoryCache hc" and ?n = "length (sent (Redis hc))"
  let ?ttl = "ExpiresInMemory hc"
  let ?r = "snd (redis_Set (Redis hc) k v (ExpiresRedis hc))"
  have sent_r: "length (sent ?r) = Suc ?n" and outage_r: "outage ?r = outage (Redis hc)"
    by (simp_all add: redis_Set_def sent_roundtrip outage_roundtrip)
  have hit: "fst (Get (Set hc k v) k) = (v, True)"
    if "admits ?c k 1 ?ttl" and "fresh ?c ?ttl"
    using that by (simp add: Get_local_hit InMemoryCache_Set ristretto_Get_admitted)
  have remote: "fst (Get (Set hc k v) k) = (v, True)"
    if absent: "ristretto_Get ?c k = None"
      and up: "outage (Redis hc) ?n = None" "outage (Redis hc) (Suc ?n) = None"
      and held: "\<not> gone (Redis hc) (Suc ?n) k"
  proof -
    from ristretto_Get_after_miss [OF absent, of v 1 ?ttl]
    consider "ristretto_Get (InMemoryCache (Set hc k v)) k = Some v"
      | "ristretto_Get (InMemoryCache (Set hc k v)) k = None"
      by (auto simp: InMemoryCache_Set)
    then show ?thesis
    proof cases
      case 1
      then show ?thesis by (simp add: Get_local_hit)
    next
      case 2
      from up held have "fst (redis_Get (Redis (Set hc k v)) k) = Inr v"
        by (simp add: Redis_Set redis_Get_after_Set)
      with 2 show ?thesis by (simp add: Get_local_miss)
    qed
  qed
  have lost: "fst (Get (Set hc k v) k) = ([], False)"
    if absent: "ristretto_Get ?c k = None"
      and unseen: "\<not> (admits ?c k 1 ?ttl \<and> fresh ?c ?ttl)"
      and down: "outage (Redis hc) (Suc ?n) = Some e"
  proof -
    have "ristretto_Get (InMemoryCache (Set hc k v)) k = None"
    proof (cases "admits ?c k 1 ?ttl")
      case True
      with unseen have "\<not> fresh ?c ?ttl" by simp
      with True show ?thesis by (simp add: InMemoryCache_Set ristretto_Get_expired)
    next
      case False
      with absent show ?thesis by (simp add: InMemoryCache_Set ristretto_Get_rejected)
    qed
    moreover from down have "fst (redis_Get (Redis (Set hc k v)) k) = Inl e"
      by (simp add: Redis_Set redis_Get_fails sent_r outage_r)
    ultimately show ?thesis by (simp add: Get_local_miss)
  qed
  from hit remote lost show ?thesis
    by (simp add: GetFromInMemoryCache_miss)
qed

text \<open>
  The witness has a write that is admitted and read within its ttl; a write that the
  full engine rejects and that comes back from the remote store; a write that is
  admitted with a local ttl of one nanosecond and has expired at the read, the
  remote store being unreachable; and a write that the full engine rejects, the
  remote store being unreachable.
\<close>

theorem Set_then_Get_witness:
  "fst (Get (Set (coordinator roomy_cache down_redis) ''k'' [1, 2, 3]) ''k'') = ([1, 2, 3], True) \<and>
   fst (Get (Set (coordinator full_cache (up_redis Map.empty)) ''b'' [2]) ''b'') = ([2], True) \<and>
   fst (Get (Set ((coordinator roomy_cache down_redis)\<lparr>ExpiresInMemory := 1\<rparr>) ''k'' [1, 2, 3])
     ''k'') = ([], False) \<and>
   fst (Get (Set (coordinator full_cache down_redis) ''b'' [2]) ''b'') = ([], False)"
  using Set_then_Get [where hc = "coordinator roomy_cache down_redis" and k = "''k''"
      and v = "[1, 2, 3]"]
    Set_then_Get [where hc = "coordinator full_cache (up_redis Map.empty)" and k = "''b''"
      and v = "[2]"]
    Set_then_Get [where hc = "(coordinator roomy_cache down_redis)\<lparr>ExpiresInMemory := 1\<rparr>"
      and k = "''k''" and v = "[1, 2, 3]" and e = "Failure ''dial tcp: connection refused''"]
    Set_then_Get [where hc = "coordinator full_cache down_redis" and k = "''b''"
      and v = "[2]" and e = "Failure ''dial tcp: connection refused''"]
  by (simp add: admits_def fresh_def now_def coordinator_def roomy_cache_def full_cache_def
      up_redis_def down_redis_def used_def evict_def GetFromInMemoryCache_def
      ristretto_Get_def)

text \<open>
  The claim as it is written fails where the local engine is full and rejects the
  new key while the remote store is unreachable.
\<close>

theorem Set_then_Get_counterexample:
  "fst (Get (Set (coordinator full_cache down_redis) ''b'' [2]) ''b'') \<noteq> ([2], True)"
  by (simp add: Get_def Set_def SetInRedis_def SetInMemoryCache_def GetFromInMemoryCache_def
      GetFromRedis_def redis_Get_def redis_Set_def roundtrip_def ristretto_Wait_def
      ristretto_Get_def ristretto_SetWithTTL_def coordinator_def full_cache_def
      down_redis_def used_def evict_def)

section \<open>Lookup order and promotion\<close>

text \<open>
  Claim C2, as the code has it. \<^verbatim>\<open>Get(k)\<close> asks the local tier first, and on a local
  hit it returns that value and sends nothing to the remote store. Only on a local
  miss does it send one \<^verbatim>\<open>GET\<close>. On a remote hit \<open>v\<close> it returns \<open>(v, true)\<close> after
  writing \<open>v\<close> to the local tier (cost 1, the local default ttl); a direct local
  lookup then returns \<open>(v, true)\<close> provided the local engine admits the promoted
  entry and the entry has not expired at that lookup (the local ttl is 0, or no more
  time than the local ttl has passed since the promotion). On a remote miss or
  failure it returns \<open>(nil, false)\<close> and writes nothing to the local tier.
\<close>

theorem Get_order_and_promotion:
  "(GetFromInMemoryCache hc k = (v, True) \<longrightarrow> Get hc k = ((v, True), hc)) \<and>
   (\<not> snd (GetFromInMemoryCache hc k) \<and> fst (GetFromRedis hc k) = (v, True) \<longrightarrow>
      fst (Get hc k) = (v, True) \<and>
      sent (Redis (snd (Get hc k))) = sent (Redis hc) @ [Cmd (GET k)] \<and>
      sets (InMemoryCache (snd (Get hc k))) =
        sets (InMemoryCache hc) @ [(k, v, 1, ExpiresInMemory hc)] \<and>
      (admits (InMemoryCache hc) k 1 (ExpiresInMemory hc) \<and>
       fresh (InMemoryCache hc) (ExpiresInMemory hc) \<longrightarrow>
         GetFromInMemoryCache (snd (Get hc k)) k = (v, True))) \<and>
   (\<not> snd (GetFromInMemoryCache hc k) \<and> \<not> snd (fst (GetFromRedis hc k)) \<longrightarrow>
      fst (Get hc k) = ([], False) \<and>
      sent (Redis (snd (Get hc k))) = sent (Redis hc) @ [Cmd (GET k)] \<and>
      InMemoryCache (snd (Get hc k)) = InMemoryCache hc)"
proof -
  let ?r = "snd (redis_Get (Redis hc) k)"
  have local: "Get hc k = ((v, True), hc)" if "GetFromInMemoryCache hc k = (v, True)"
    using that by (simp add: Get_local_hit GetFromInMemoryCache_hit)
  have promoted:
    "fst (Get hc k) = (v, True) \<and>
     sent (Redis (snd (Get hc k))) = sent (Redis hc) @ [Cmd (GET k)] \<and>
     sets (InMemoryCache (snd (Get hc k))) =
       sets (InMemoryCache hc) @ [(k, v, 1, ExpiresInMemory hc)] \<and>
     (admits (InMemoryCache hc) k 1 (ExpiresInMemory hc) \<and>
      fresh (InMemoryCache hc) (ExpiresInMemory hc) \<longrightarrow>
        GetFromInMemoryCache (snd (Get hc k)) k = (v, True))"
    if miss: "ristretto_Get (InMemoryCache hc) k = None"
      and hit: "fst (redis_Get (Redis hc) k) = Inr v"
  proof -
    from miss hit
    have get: "Get hc k = ((v, True), SetInMemoryCache (hc\<lparr>Redis := ?r\<rparr>) k v)"
      by (simp add: Get_local_miss)
    have "InMemoryCache (SetInMemoryCache (hc\<lparr>Redis := ?r\<rparr>) k v) =
        ristretto_SetWithTTL (InMemoryCache hc) k v 1 (ExpiresInMemory hc)"
      by (simp add: InMemoryCache_SetInMemoryCache)
    then show ?thesis
      by (simp add: get Redis_SetInMemoryCache sent_redis_Get sets_ristretto_SetWithTTL
          GetFromInMemoryCache_hit ristretto_Get_admitted)
  qed
  have absent:
    "fst (Get hc k) = ([], False) \<and>
     sent (Redis (snd (Get hc k))) = sent (Redis hc) @ [Cmd (GET k)] \<and>
     InMemoryCache (snd (Get hc k)) = InMemoryCache hc"
    if miss: "ristretto_Get (InMemoryCache hc) k = None"
      and none: "\<not> snd (fst (GetFromRedis hc k))"
  proof -
    from none obtain e where "fst (redis_Get (Redis hc) k) = Inl e"
      by (auto simp: GetFromRedis_def split: prod.splits sum.splits)
    with miss show ?thesis
      by (simp add: Get_local_miss sent_redis_Get)
  qed
  from local promoted absent show ?thesis
    by (simp add: GetFromInMemoryCache_miss GetFromRedis_hit)
qed

theorem Get_order_and_promotion_witness:
  "Get (coordinator full_cache down_redis) ''a'' =
     (([1], True), coordinator full_cache down_redis) \<and>
   fst (Get (coordinator roomy_cache (up_redis [''b'' \<mapsto> [2]])) ''b'') = ([2], True) \<and>
   GetFromInMemoryCache (snd (Get (coordinator roomy_cache (up_redis [''b'' \<mapsto> [2]])) ''b'')) ''b''
     = ([2], True) \<and>
   fst (Get (coordinator roomy_cache down_redis) ''b'') = ([], False)"
  using Get_order_and_promotion [where hc = "coordinator full_cache down_redis"
      and k = "''a''" and v = "[1]"]
    Get_order_and_promotion [where hc = "coordinator roomy_cache (up_redis [''b'' \<mapsto> [2]])"
      and k = "''b''" and v = "[2]"]
    Get_order_and_promotion [where hc = "coordinator roomy_cache down_redis"
      and k = "''b''"]
  by (simp add: admits_def fresh_def now_def coordinator_def roomy_cache_def full_cache_def
      up_redis_def down_redis_def used_def evict_def GetFromInMemoryCache_def
      ristretto_Get_def GetFromRedis_def redis_Get_def roundtrip_def)

text \<open>
  The last part of the claim as it is written fails where the local engine is full
  and rejects the promoted key: the value comes back from the remote tier, and the
  local lookup that follows misses.
\<close>

theorem Get_promotion_counterexample:
  "fst (Get (coordinator full_cache (up_redis [''b'' \<mapsto> [2]])) ''b'') = ([2], True) \<and>
   GetFromInMemoryCache (snd (Get (coordinator full_cache (up_redis [''b'' \<mapsto> [2]])) ''b'')) ''b''
     \<noteq> ([2], True)"
  by (simp add: Get_def SetInMemoryCache_def GetFromInMemoryCache_def
      GetFromRedis_def redis_Get_def roundtrip_def ristretto_Wait_def
      ristretto_Get_def ristretto_SetWithTTL_def coordinator_def full_cache_def
      up_redis_def used_def evict_def)

text \<open>
  With a local ttl of one nanosecond the promoted entry is admitted and has expired
  at the lookup that follows.
\<close>

lemma Get_promotion_expired:
  "fst (Get ((coordinator roomy_cache (up_redis [''b'' \<mapsto> [2]]))\<lparr>ExpiresInMemory := 1\<rparr>) ''b'')
     = ([2], True) \<and>
   GetFromInMemoryCache
     (snd (Get ((coordinator roomy_cache (up_redis [''b'' \<mapsto> [2]]))\<lparr>ExpiresInMemory := 1\<rparr>)
        ''b'')) ''b'' = ([], False)"
  by (simp add: Get_def SetInMemoryCache_def GetFromInMemoryCache_def
      GetFromRedis_def redis_Get_def roundtrip_def ristretto_Wait_def
      ristretto_Get_def ristretto_SetWithTTL_def coordinator_def roomy_cache_def
      up_redis_def used_def evict_def now_def expires_at_def)

section \<open>Which ttl goes to which tier\<close>

text \<open>
  Claim C5. \<^verbatim>\<open>SetWithTTL(key, value, t)\<close> hands the local engine one write, with
  the coordinator's \<^verbatim>\<open>ExpiresInMemory\<close> as its ttl whatever \<open>t\<close> is, and sends the
  remote store one \<^verbatim>\<open>SET\<close> with expiration \<open>t\<close>. \<^verbatim>\<open>Set(key, value)\<close> does the same
  with \<^verbatim>\<open>ExpiresInMemory\<close> for the local tier and \<^verbatim>\<open>ExpiresRedis\<close> for the remote one.
  Where the local engine admits the write, the entry it then holds for the key has
  the value, the cost 1 and the ttl \<^verbatim>\<open>ExpiresInMemory\<close>.
\<close>

theorem SetWithTTL_ttls:
  "sets (InMemoryCache (SetWithTTL hc k v t)) =
     sets (InMemoryCache hc) @ [(k, v, 1, ExpiresInMemory hc)] \<and>
   sent (Redis (SetWithTTL hc k v t)) = sent (Redis hc) @ [Cmd (SET k v t)] \<and>
   sets (InMemoryCache (Set hc k v)) =
     sets (InMemoryCache hc) @ [(k, v, 1, ExpiresInMemory hc)] \<and>
   sent (Redis (Set hc k v)) = sent (Redis hc) @ [Cmd (SET k v (ExpiresRedis hc))] \<and>
   (admits (InMemoryCache hc) k 1 (ExpiresInMemory hc) \<longrightarrow>
      map_of (store (InMemoryCache (SetWithTTL hc k v t))) k =
        Some \<lparr>Value = v, Cost = 1, Expiration = ExpiresInMemory hc\<rparr> \<and>
      map_of (store (InMemoryCache (Set hc k v))) k =
        Some \<lparr>Value = v, Cost = 1, Expiration = ExpiresInMemory hc\<rparr>)"
  by (simp add: InMemoryCache_SetWithTTL Redis_SetWithTTL InMemoryCache_Set Redis_Set
      sets_ristretto_SetWithTTL redis_Set_def sent_roundtrip store_admitted)

theorem SetWithTTL_ttls_witness:
  "sets (InMemoryCache (SetWithTTL (coordinator roomy_cache down_redis) ''k'' [1] 1000000000)) =
     [(''k'', [1], 1, 300000000000)] \<and>
   sent (Redis (SetWithTTL (coordinator roomy_cache down_redis) ''k'' [1] 1000000000)) =
     [Cmd (SET ''k'' [1] 1000000000)] \<and>
   sent (Redis (Set (coordinator roomy_cache down_redis) ''k'' [1])) =
     [Cmd (SET ''k'' [1] 600000000000)] \<and>
   map_of (store (InMemoryCache
       (SetWithTTL (coordinator roomy_cache down_redis) ''k'' [1] 1000000000))) ''k'' =
     Some \<lparr>Value = [1], Cost = 1, Expiration = 300000000000\<rparr>"
  using SetWithTTL_ttls [where hc = "coordinator roomy_cache down_redis" and k = "''k''"
      and v = "[1]" and t = 1000000000]
  by (simp add: admits_def coordinator_def roomy_cache_def down_redis_def used_def evict_def)

section \<open>A failed remote read\<close>

text \<open>
  Claim C7, as the code has it. The result of \<^verbatim>\<open>GetFromRedis\<close> is a value and a
  flag, with no error in it. When the \<^verbatim>\<open>GET\<close> fails, with whatever error, the
  result is \<open>(nil, false)\<close>, and that is also the result for a key that the store,
  reachable, does not hold: the caller cannot tell the failure from the absence.
\<close>

theorem GetFromRedis_failure_is_absence:
  "(outage (Redis rc) (length (sent (Redis rc))) = Some e \<longrightarrow>
      fst (GetFromRedis rc k) = ([], False)) \<and>
   (outage (Redis rc) (length (sent (Redis rc))) = None \<and> keyspace (Redis rc) k = None \<longrightarrow>
      fst (GetFromRedis rc k) = ([], False))"
  by (simp add: GetFromRedis_def redis_Get_def roundtrip_def)

theorem GetFromRedis_failure_is_absence_witness:
  "fst (GetFromRedis (coordinator roomy_cache down_redis) ''k'') = ([], False) \<and>
   fst (GetFromRedis (coordinator roomy_cache (up_redis Map.empty)) ''k'') = ([], False)"
  using GetFromRedis_failure_is_absence [where rc = "coordinator roomy_cache down_redis"
      and k = "''k''" and e = "Failure ''dial tcp: connection refused''"]
    GetFromRedis_failure_is_absence [where rc = "coordinator roomy_cache (up_redis Map.empty)"
      and k = "''k''"]
  by (simp add: coordinator_def down_redis_def up_redis_def)

text \<open>
  The claim as it is written fails: with the store unreachable, the key \<open>''k''\<close>
  written there or not, the result is the one of a reachable store without the key.
\<close>

theorem GetFromRedis_counterexample:
  "fst (GetFromRedis (coordinator roomy_cache down_redis) ''k'') =
     fst (GetFromRedis (coordinator roomy_cache (up_redis Map.empty)) ''k'')"
  by (simp add: GetFromRedis_def redis_Get_def roundtrip_def coordinator_def down_redis_def
      up_redis_def)

section \<open>The cost of a local write\<close>

text \<open>
  Claim C10. In any run of calls on a coordinator, every write handed to the local
  engine (by \<^verbatim>\<open>Set\<close>, by \<^verbatim>\<open>SetWithTTL\<close>, or by the promotion in \<^verbatim>\<open>Get\<close>) carries
  the cost 1, whatever the value and its length. The budget \<open>MaxCost\<close> stays as
  configured. So, starting from a local engine in which every entry was handed with
  cost 1 and which is within its budget (an empty one, for instance), the costs
  handed for the entries held add up to the number of these entries, whatever bytes
  they hold, and that number is bounded by \<open>MaxCost\<close>. An engine that charges each
  entry a fixed overhead on top of the cost handed holds fewer entries still; in
  either case the budget limits the number of entries, not their bytes.
\<close>

theorem local_writes_cost_one:
  assumes "run cs hc = Some hc'"
  shows "(\<exists>new. sets (InMemoryCache hc') = sets (InMemoryCache hc) @ new \<and>
            list_all (\<lambda>(k, v, cost, ttl). cost = 1) new) \<and>
         MaxCost (InMemoryCache hc') = MaxCost (InMemoryCache hc) \<and>
         (within_budget (InMemoryCache hc) \<longrightarrow>
            unit_costs (store (InMemoryCache hc')) \<and>
            used (store (InMemoryCache hc')) = int (length (store (InMemoryCache hc'))) \<and>
            int (length (store (InMemoryCache hc'))) \<le> max 0 (MaxCost (InMemoryCache hc)))"
proof -
  note facts = run_local_costs [OF assms]
  have "unit_costs (store (InMemoryCache hc')) \<and>
      used (store (InMemoryCache hc')) = int (length (store (InMemoryCache hc'))) \<and>
      int (length (store (InMemoryCache hc'))) \<le> max 0 (MaxCost (InMemoryCache hc))"
    if "within_budget (InMemoryCache hc)"
  proof -
    from that facts have "within_budget (InMemoryCache hc')"
      and "MaxCost (InMemoryCache hc') = MaxCost (InMemoryCache hc)"
      by simp_all
    then show ?thesis
      by (simp add: within_budget_def used_unit_costs)
  qed
  with facts show ?thesis by blast
qed

theorem local_writes_cost_one_witness:
  "unit_costs (store (InMemoryCache
     (Del (SetWithTTL (snd (Get (Set (coordinator roomy_cache (up_redis [''j'' \<mapsto> [7, 7]]))
        ''k'' [1, 2, 3]) ''j'')) ''j'' [] 5) ''k''))) \<and>
   int (length (store (InMemoryCache
     (Del (SetWithTTL (snd (Get (Set (coordinator roomy_cache (up_redis [''j'' \<mapsto> [7, 7]]))
        ''k'' [1, 2, 3]) ''j'')) ''j'' [] 5) ''k'')))) \<le> 100"
proof -
  let ?hc = "coordinator roomy_cache (up_redis [''j'' \<mapsto> [7, 7]])"
  let ?hc' = "Del (SetWithTTL (snd (Get (Set ?hc ''k'' [1, 2, 3]) ''j'')) ''j'' [] 5) ''k''"
  have ran: "run [CallSet ''k'' [1, 2, 3], CallGet ''j'', CallSetWithTTL ''j'' [] 5,
      CallDel ''k''] ?hc = Some ?hc'"
    by simp
  have start: "within_budget (InMemoryCache ?hc)"
    and budget: "MaxCost (InMemoryCache ?hc) = 100"
    by (simp_all add: within_budget_def unit_costs_def coordinator_def roomy_cache_def)
  from local_writes_cost_one [OF ran] start budget show ?thesis
    by simp
qed

section \<open>No write to the local tier alone\<close>

text \<open>
  Claim C8. Whatever call is made on a coordinator (\<^verbatim>\<open>Set\<close>, \<^verbatim>\<open>SetWithTTL\<close>,
  \<^verbatim>\<open>Get\<close>, \<^verbatim>\<open>Del\<close>, \<^verbatim>\<open>DelMultipleKeysFromRedis\<close>,
  \<^verbatim>\<open>DeleteKeysByPatternFromRedis\<close>, \<^verbatim>\<open>Close\<close>), each write of a key \<open>k\<close> and a value
  \<open>v\<close> that the call hands to the local engine comes with remote traffic of the same
  call: either one \<^verbatim>\<open>SET\<close> of the same \<open>k\<close> and \<open>v\<close>, after which, unless that round
  trip failed, the remote store holds \<open>v\<close> under \<open>k\<close>; or one \<^verbatim>\<open>GET\<close> of \<open>k\<close> that the
  remote store answered with \<open>v\<close>.
\<close>

theorem no_local_only_write:
  assumes "step c hc = Some hc'"
  shows "\<exists>new wire.
     sets (InMemoryCache hc') = sets (InMemoryCache hc) @ new \<and>
     sent (Redis hc') = sent (Redis hc) @ wire \<and>
     list_all (\<lambda>(k, v, cost, ttl).
        (\<exists>e. wire = [Cmd (SET k v e)] \<and>
           (outage (Redis hc) (length (sent (Redis hc))) = None \<longrightarrow>
              keyspace (Redis hc') k = Some v)) \<or>
        (wire = [Cmd (GET k)] \<and> fst (GetFromRedis hc k) = (v, True))) new"
proof -
  let ?ok = "\<lambda>wire. \<lambda>(k, v, cost, ttl).
        (\<exists>e. wire = [Cmd (SET k v e)] \<and>
           (outage (Redis hc) (length (sent (Redis hc))) = None \<longrightarrow>
              keyspace (Redis hc') k = Some v)) \<or>
        (wire = [Cmd (GET k)] \<and> fst (GetFromRedis hc k) = (v, True))"
  let ?goal = "\<lambda>new wire.
     sets (InMemoryCache hc') = sets (InMemoryCache hc) @ new \<and>
     sent (Redis hc') = sent (Redis hc) @ wire \<and> list_all (?ok wire) new"
  have quiet: "\<exists>new wire. ?goal new wire"
    if "sets (InMemoryCache hc') = sets (InMemoryCache hc)"
      and "\<exists>w. sent (Redis hc') = sent (Redis hc) @ w"
  proof -
    from that obtain w where "?goal [] w" by auto
    then show ?thesis by blast
  qed
  have written: "\<exists>new wire. ?goal new wire"
    if local: "InMemoryCache hc' =
        ristretto_SetWithTTL (InMemoryCache hc) k v 1 (ExpiresInMemory hc)"
      and remote: "Redis hc' = snd (redis_Set (Redis hc) k v e)" for k v e
  proof -
    have "outage (Redis hc) (length (sent (Redis hc))) = None \<longrightarrow>
        keyspace (Redis hc') k = Some v"
      by (simp add: remote redis_Set_def roundtrip_ok)
    then have "?goal [(k, v, 1, ExpiresInMemory hc)] [Cmd (SET k v e)]"
      by (simp add: local remote sets_ristretto_SetWithTTL redis_Set_def sent_roundtrip)
    then show ?thesis by blast
  qed
  show ?thesis
  proof (cases c)
    case (CallSet k v)
    with assms have "hc' = Set hc k v" by simp
    then show ?thesis
      by (intro written [of k v "ExpiresRedis hc"]) (simp_all add: InMemoryCache_Set Redis_Set)
  next
    case (CallSetWithTTL k v e)
    with assms have "hc' = SetWithTTL hc k v e" by simp
    then show ?thesis
      by (intro written [of k v e]) (simp_all add: InMemoryCache_SetWithTTL Redis_SetWithTTL)
  next
    case (CallGet k)
    with assms have hc': "hc' = snd (Get hc k)" by simp
    show ?thesis
    proof (cases "ristretto_Get (InMemoryCache hc) k")
      case (Some v)
      then have "hc' = hc" by (simp add: hc' Get_local_hit)
      then show ?thesis by (intro quiet) simp_all
    next
      case None
      show ?thesis
      proof (cases "fst (redis_Get (Redis hc) k)")
        case (Inl err)
        with None have "hc' = hc\<lparr>Redis := snd (redis_Get (Redis hc) k)\<rparr>"
          by (simp add: hc' Get_local_miss)
        then show ?thesis by (intro quiet) (simp_all add: sent_redis_Get)
      next
        case (Inr v)
        with None
        have "hc' = SetInMemoryCache (hc\<lparr>Redis := snd (redis_Get (Redis hc) k)\<rparr>) k v"
          by (simp add: hc' Get_local_miss)
        then have "sets (InMemoryCache hc') =
            sets (InMemoryCache hc) @ [(k, v, 1, ExpiresInMemory hc)]"
          and "sent (Redis hc') = sent (Redis hc) @ [Cmd (GET k)]"
          by (simp_all add: InMemoryCache_SetInMemoryCache Redis_SetInMemoryCache
              sets_ristretto_SetWithTTL sent_redis_Get)
        moreover from Inr have "fst (GetFromRedis hc k) = (v, True)"
          by (simp add: GetFromRedis_hit)
        ultimately have "?goal [(k, v, 1, ExpiresInMemory hc)] [Cmd (GET k)]"
          by simp
        then show ?thesis by blast
      qed
    qed
  next
    case (CallDel k)
    with assms have "hc' = Del hc k" by simp
    then show ?thesis
      by (intro quiet)
        (simp_all add: InMemoryCache_Del Redis_Del sets_ristretto_Del redis_Del_def
          sent_roundtrip)
  next
    case (CallDelMultipleKeysFromRedis keys)
    with assms have "hc' = snd (DelMultipleKeysFromRedis hc keys)" by simp
    then show ?thesis
      by (intro quiet)
        (simp_all add: InMemoryCache_DelMultipleKeysFromRedis sent_DelMultipleKeysFromRedis)
  next
    case (CallDeleteKeysByPatternFromRedis pattern)
    with assms obtain y where "DeleteKeysByPatternFromRedis hc pattern = Some y"
      and "hc' = snd y"
      by auto
    then show ?thesis
      by (intro quiet)
        (simp_all add: DeleteKeysByPatternFromRedis_local DeleteKeysByPatternFromRedis_sent)
  next
    case CallClose
    with assms have "hc' = Close hc" by simp
    then show ?thesis
      by (intro quiet) (simp_all add: InMemoryCache_Close Redis_Close sets_ristretto_Close)
  qed
qed

theorem no_local_only_write_witness:
  "\<exists>new wire.
     sets (InMemoryCache (Set (coordinator roomy_cache (up_redis Map.empty)) ''k'' [1])) =
       sets (InMemoryCache (coordinator roomy_cache (up_redis Map.empty))) @ new \<and>
     sent (Redis (Set (coordinator roomy_cache (up_redis Map.empty)) ''k'' [1])) =
       sent (Redis (coordinator roomy_cache (up_redis Map.empty))) @ wire \<and>
     new \<noteq> [] \<and> wire \<noteq> []"
proof -
  let ?hc = "coordinator roomy_cache (up_redis Map.empty)"
  have "step (CallSet ''k'' [1]) ?hc = Some (Set ?hc ''k'' [1])"
    by simp
  from no_local_only_write [OF this] obtain new wire
    where new: "sets (InMemoryCache (Set ?hc ''k'' [1])) = sets (InMemoryCache ?hc) @ new"
      and wire: "sent (Redis (Set ?hc ''k'' [1])) = sent (Redis ?hc) @ wire"
    by blast
  from new have "new \<noteq> []"
    by (auto simp: InMemoryCache_Set sets_ristretto_SetWithTTL)
  moreover from wire have "wire \<noteq> []"
    by (auto simp: Redis_Set redis_Set_def sent_roundtrip)
  ultimately show ?thesis using new wire by blast
qed

section \<open>Deletion by pattern: enumeration, then one batch\<close>

text \<open>
  Claim C3. \<^verbatim>\<open>DeleteKeysByPatternFromRedis\<close> scans from cursor 0 with page size 100,
  each scan at the cursor the previous one answered, and stops at the first page that
  answers cursor 0, whatever the pages hold (an empty page with a cursor other than 0
  is followed by the next scan). With \<open>n + 1\<close> the number of that page and no scan
  failing, the requests sent are exactly these \<open>n + 1\<close> scans; the keys are those of all
  the pages, in order. If there is no key, the result is \<^verbatim>\<open>nil\<close> and nothing else is
  sent. Otherwise one pipeline with a \<^verbatim>\<open>DEL\<close> for each key follows: it removes the keys
  and the result is \<^verbatim>\<open>nil\<close>, or it fails and its error is the result.
\<close>

theorem DeleteKeysByPattern_enumerates:
  assumes "\<forall>i<n. snd (page (Redis hc) p (cursor_from (Redis hc) p 0 i)) \<noteq> 0"
    and "snd (page (Redis hc) p (cursor_from (Redis hc) p 0 n)) = 0"
    and "\<forall>i\<le>n. outage (Redis hc) (length (sent (Redis hc)) + i) = None"
  shows "DeleteKeysByPatternFromRedis hc p =
     (let r = Redis hc; keys = found r p 0 (Suc n); wire = scans r p 0 (Suc n)
      in if keys = [] then Some (None, hc\<lparr>Redis := r\<lparr>sent := sent r @ wire\<rparr>\<rparr>)
         else (case outage r (length (sent r) + Suc n) of
                 None \<Rightarrow>
                   Some (None, hc\<lparr>Redis :=
                     r\<lparr>keyspace := fold effect (map DEL keys) (keyspace r),
                       sent := sent r @ wire @ [Pipelined (map DEL keys)]\<rparr>\<rparr>)
               | Some e \<Rightarrow>
                   Some (Some e, hc\<lparr>Redis :=
                     r\<lparr>sent := sent r @ wire @ [Pipelined (map DEL keys)]\<rparr>\<rparr>)))"
proof -
  let ?r = "Redis hc"
  let ?r1 = "?r\<lparr>sent := sent ?r @ scans ?r p 0 (Suc n)\<rparr>"
  have loop: "scan_loop p ?r [] 0 = Some (Inr (found ?r p 0 (Suc n)), ?r1)"
    using scan_loop_completes [OF assms, of "[]"] by simp
  show ?thesis
    by (simp add: DeleteKeysByPatternFromRedis_def loop Let_def pipe_Exec_def roundtrip_def
        redis_Pipeline_def foldl_pipe_Del length_scans split: option.splits)
qed

theorem DeleteKeysByPattern_enumerates_witness:
  "\<exists>hc'. DeleteKeysByPatternFromRedis (coordinator roomy_cache (paged_redis (\<lambda>n. None))) ''p:*''
       = Some (None, hc') \<and>
     sent (Redis hc') =
       [Cmd (SCAN 0 ''p:*'' 100), Cmd (SCAN 17 ''p:*'' 100), Cmd (SCAN 5 ''p:*'' 100),
        Pipelined [DEL ''p:1'', DEL ''p:2'']] \<and>
     keyspace (Redis hc') ''p:1'' = None \<and> keyspace (Redis hc') ''p:2'' = None \<and>
     keyspace (Redis hc') ''q:1'' = Some [3]"
proof -
  let ?hc = "coordinator roomy_cache (paged_redis (\<lambda>n. None))"
  have more: "\<forall>i<Suc (Suc 0). snd (page (Redis ?hc) ''p:*'' (cursor_from (Redis ?hc) ''p:*'' 0 i)) \<noteq> 0"
    by (auto simp: less_Suc_eq page_def coordinator_def paged_redis_def)
  have stop: "snd (page (Redis ?hc) ''p:*'' (cursor_from (Redis ?hc) ''p:*'' 0 (Suc (Suc 0)))) = 0"
    by (simp add: page_def coordinator_def paged_redis_def)
  have up: "\<forall>i\<le>Suc (Suc 0). outage (Redis ?hc) (length (sent (Redis ?hc)) + i) = None"
    by (simp add: coordinator_def paged_redis_def)
  show ?thesis
    using DeleteKeysByPattern_enumerates [OF more stop up]
    by (simp add: Let_def found_def scans_def page_def coordinator_def paged_redis_def)
qed

section \<open>Deletion by pattern: a scan that fails\<close>

text \<open>
  Claim C4. When the scan of page \<open>n + 1\<close> fails with an error \<open>e\<close>, the pages before
  it having answered cursors other than 0, \<^verbatim>\<open>DeleteKeysByPatternFromRedis\<close> returns
  \<open>e\<close>. The requests sent are the \<open>n + 1\<close> scans and nothing else, no \<^verbatim>\<open>DEL\<close> and no
  pipeline, and the keyspace of the remote store is as it was: the keys of the earlier
  pages are still there.
\<close>

theorem DeleteKeysByPattern_scan_error:
  assumes "\<forall>i<n. snd (page (Redis hc) p (cursor_from (Redis hc) p 0 i)) \<noteq> 0"
    and "\<forall>i<n. outage (Redis hc) (length (sent (Redis hc)) + i) = None"
    and "outage (Redis hc) (length (sent (Redis hc)) + n) = Some e"
  shows "DeleteKeysByPatternFromRedis hc p =
     Some (Some e, hc\<lparr>Redis := (Redis hc)\<lparr>sent := sent (Redis hc) @ scans (Redis hc) p 0 (Suc n)\<rparr>\<rparr>)"
  using scan_loop_fails [OF assms, of "[]"]
  by (simp add: DeleteKeysByPatternFromRedis_def)

theorem DeleteKeysByPattern_scan_error_witness:
  "\<exists>hc'. DeleteKeysByPatternFromRedis
       (coordinator roomy_cache (paged_redis (\<lambda>n. if n = 2 then Some (Failure ''i/o timeout'') else None)))
       ''p:*'' = Some (Some (Failure ''i/o timeout''), hc') \<and>
     sent (Redis hc') =
       [Cmd (SCAN 0 ''p:*'' 100), Cmd (SCAN 17 ''p:*'' 100), Cmd (SCAN 5 ''p:*'' 100)] \<and>
     keyspace (Redis hc') ''p:1'' = Some [1] \<and> keyspace (Redis hc') ''p:2'' = Some [2]"
proof -
  let ?hc = "coordinator roomy_cache
    (paged_redis (\<lambda>n. if n = 2 then Some (Failure ''i/o timeout'') else None))"
  have more: "\<forall>i<Suc (Suc 0). snd (page (Redis ?hc) ''p:*'' (cursor_from (Redis ?hc) ''p:*'' 0 i)) \<noteq> 0"
    by (auto simp: less_Suc_eq page_def coordinator_def paged_redis_def)
  have up: "\<forall>i<Suc (Suc 0). outage (Redis ?hc) (length (sent (Redis ?hc)) + i) = None"
    by (auto simp: coordinator_def paged_redis_def)
  have down: "outage (Redis ?hc) (length (sent (Redis ?hc)) + Suc (Suc 0)) = Some (Failure ''i/o timeout'')"
    by (simp add: coordinator_def paged_redis_def)
  show ?thesis
    using DeleteKeysByPattern_scan_error [OF more up down]
    by (simp add: scans_def page_def coordinator_def paged_redis_def)
qed

section \<open>Key derivation\<close>

text \<open>
  Claim C6. \<^verbatim>\<open>GetCacheKey(data)\<close> is the prefix, a colon, and the hexadecimal
  encoding of the SHA-256 digest of the bytes of \<open>data\<close>. The digest has 32 bytes, so
  the encoding has 64 characters; all of them are lower-case hexadecimal digits, and
  read back as hexadecimal they give the digest. The result depends on the prefix
  and on \<open>data\<close> only, not on the state of the two engines: the same input gives the
  same key, whatever happened to the caches in between.
\<close>

theorem GetCacheKey_prefixed_digest:
  "GetCacheKey hc data = Prefix hc @ '':'' @ EncodeToString (Sum256 (to_bytes data)) \<and>
   length (Sum256 (to_bytes data)) = 32 \<and>
   length (EncodeToString (Sum256 (to_bytes data))) = 64 \<and>
   list_all (\<lambda>c. c \<in> set ''0123456789abcdef'') (EncodeToString (Sum256 (to_bytes data))) \<and>
   decode_hex (EncodeToString (Sum256 (to_bytes data))) = Some (Sum256 (to_bytes data)) \<and>
   GetCacheKey (hc\<lparr>InMemoryCache := c, Redis := r\<rparr>) data = GetCacheKey hc data"
proof -
  have "list_all (\<lambda>c. c \<in> set ''0123456789abcdef'') (EncodeToString (Sum256 (to_bytes data)))"
    using hex_EncodeToString [of "Sum256 (to_bytes data)"] by (simp only: hextable_def)
  then show ?thesis
    by (simp add: GetCacheKey_def sha256_New_def hash_Write_def hash_Sum_def
        length_EncodeToString length_Sum256 decode_hex_EncodeToString)
qed

section \<open>Batch deletion of no keys\<close>

text \<open>
  Claim C9. \<^verbatim>\<open>DelMultipleKeysFromRedis\<close> on the empty list of keys returns no error
  and leaves the coordinator as it was: nothing is sent to the remote store (the trace
  of requests is the same, no pipeline is executed) and its keyspace is unchanged.
\<close>

theorem DelMultipleKeysFromRedis_empty:
  "DelMultipleKeysFromRedis hc [] = (None, hc)"
  by (simp add: DelMultipleKeysFromRedis_def)

end
